theory Spec2Isabelle
  imports Main "HOL-Library.Sublist"
begin

section \<open>Errors\<close>

text \<open>
  Python exceptions are values. \<open>DBusError\<close> stands for any failure of a remote call
  (timeout, unknown unit, permission); the others are the built-in exceptions the
  source can raise by itself.
\<close>

datatype error = ValueError | IndexError | KeyError | DBusError string

section \<open>mount\_control.py\<close>

subsection \<open>The systemd manager as seen from MountControl\<close>

text \<open>
  The four methods of \<open>MountControl\<close> that talk to systemd: \<open>get_unit_status\<close>,
  \<open>reset_failed\<close>, \<open>stop_unit\<close>, \<open>start_unit\<close>. Each takes a unit name.
\<close>

datatype unit_call =
    GetUnitStatus string
  | ResetFailed string
  | StopUnit string
  | StartUnit string

text \<open>
  A remote call either raises or returns. \<open>get_unit_status\<close> returns the pair
  (active state, sub state); the value the other three calls return is discarded by
  the source. \<open>get_unit_status\<close> counts as one call: the path lookup, the
  introspection and the two property reads it is made of are not told apart, and a
  failure of any of them is a failure of the call. \<open>systemd_manager_interface\<close> is
  taken as set (the source sets it in a task that \<open>__init__\<close> creates). The trace lists every call made so far with its reply, oldest first.
  The service manager is any function from the trace so far and the call to a reply:
  its answers may depend on everything that was asked before.
\<close>

type_synonym reply = "error + string \<times> string"
type_synonym trace = "(unit_call \<times> reply) list"
type_synonym systemd = "trace \<Rightarrow> unit_call \<Rightarrow> reply"

record mount_control =
  systemd_manager_interface :: systemd
  list_of_mount :: "string list"

definition remote :: "mount_control \<Rightarrow> unit_call \<Rightarrow> trace \<Rightarrow> reply \<times> trace" where
  "remote self c tr =
     (systemd_manager_interface self tr c, tr @ [(c, systemd_manager_interface self tr c)])"

definition get_unit_status ::
  "mount_control \<Rightarrow> string \<Rightarrow> trace \<Rightarrow> (error + string \<times> string) \<times> trace" where
  "get_unit_status self unit_name tr = remote self (GetUnitStatus unit_name) tr"

definition reset_failed :: "mount_control \<Rightarrow> string \<Rightarrow> trace \<Rightarrow> (error + unit) \<times> trace" where
  "reset_failed self unit_name tr =
     (case remote self (ResetFailed unit_name) tr of
        (Inl e, tr') \<Rightarrow> (Inl e, tr')
      | (Inr _, tr') \<Rightarrow> (Inr (), tr'))"

definition stop_unit :: "mount_control \<Rightarrow> string \<Rightarrow> trace \<Rightarrow> (error + unit) \<times> trace" where
  "stop_unit self unit_name tr =
     (case remote self (StopUnit unit_name) tr of
        (Inl e, tr') \<Rightarrow> (Inl e, tr')
      | (Inr _, tr') \<Rightarrow> (Inr (), tr'))"

definition start_unit :: "mount_control \<Rightarrow> string \<Rightarrow> trace \<Rightarrow> (error + unit) \<times> trace" where
  "start_unit self unit_name tr =
     (case remote self (StartUnit unit_name) tr of
        (Inl e, tr') \<Rightarrow> (Inl e, tr')
      | (Inr _, tr') \<Rightarrow> (Inr (), tr'))"

subsection \<open>restart\_all\_mounts\<close>

text \<open>
  The first loop of \<open>restart_all_mounts\<close>, over \<open>self.list_of_mount\<close>; the third
  argument is \<open>automount_to_restart\<close> as built so far. An exception of any call leaves
  the loop and the function.
\<close>

fun collect_automounts ::
  "mount_control \<Rightarrow> string list \<Rightarrow> string list \<Rightarrow> trace \<Rightarrow> (error + string list) \<times> trace" where
  "collect_automounts self [] automount_to_restart tr = (Inr automount_to_restart, tr)"
| "collect_automounts self (name # names) automount_to_restart tr =
     (case get_unit_status self (name @ ''.mount'') tr of
        (Inl e, tr1) \<Rightarrow> (Inl e, tr1)
      | (Inr (active_state, _), tr1) \<Rightarrow>
          (case (if active_state = ''failed''
                 then reset_failed self (name @ ''.mount'') tr1
                 else (Inr (), tr1)) of
             (Inl e, tr2) \<Rightarrow> (Inl e, tr2)
           | (Inr _, tr2) \<Rightarrow>
               (case get_unit_status self (name @ ''.automount'') tr2 of
                  (Inl e, tr3) \<Rightarrow> (Inl e, tr3)
                | (Inr (active_state, _), tr3) \<Rightarrow>
                    collect_automounts self names
                      (if active_state \<noteq> ''active''
                       then automount_to_restart @ [name]
                       else automount_to_restart) tr3)))"

text \<open>The second loop, over \<open>automount_to_restart\<close>.\<close>

fun restart_automounts ::
  "mount_control \<Rightarrow> string list \<Rightarrow> trace \<Rightarrow> (error + unit) \<times> trace" where
  "restart_automounts self [] tr = (Inr (), tr)"
| "restart_automounts self (name # names) tr =
     (case reset_failed self (name @ ''.automount'') tr of
        (Inl e, tr1) \<Rightarrow> (Inl e, tr1)
      | (Inr _, tr1) \<Rightarrow>
          (case start_unit self (name @ ''.automount'') tr1 of
             (Inl e, tr2) \<Rightarrow> (Inl e, tr2)
           | (Inr _, tr2) \<Rightarrow> restart_automounts self names tr2))"

definition restart_all_mounts :: "mount_control \<Rightarrow> trace \<Rightarrow> (error + unit) \<times> trace" where
  "restart_all_mounts self tr =
     (case collect_automounts self (list_of_mount self) [] tr of
        (Inl e, tr1) \<Rightarrow> (Inl e, tr1)
      | (Inr automount_to_restart, tr1) \<Rightarrow>
          if automount_to_restart \<noteq> [] then
            (case stop_unit self ''network-online.target'' tr1 of
               (Inl e, tr2) \<Rightarrow> (Inl e, tr2)
             | (Inr _, tr2) \<Rightarrow>
                 (case stop_unit self ''NetworkManager-wait-online.service'' tr2 of
                    (Inl e, tr3) \<Rightarrow> (Inl e, tr3)
                  | (Inr _, tr3) \<Rightarrow> restart_automounts self automount_to_restart tr3))
          else (Inr (), tr1))"

subsection \<open>stop\_mounts\<close>

fun stop_loop :: "mount_control \<Rightarrow> string list \<Rightarrow> trace \<Rightarrow> (error + unit) \<times> trace" where
  "stop_loop self [] tr = (Inr (), tr)"
| "stop_loop self (name # names) tr =
     (case stop_unit self (name @ ''.mount'') tr of
        (Inl e, tr1) \<Rightarrow> (Inl e, tr1)
      | (Inr _, tr1) \<Rightarrow> stop_loop self names tr1)"

definition stop_mounts :: "mount_control \<Rightarrow> trace \<Rightarrow> (error + unit) \<times> trace" where
  "stop_mounts self tr = stop_loop self (list_of_mount self) tr"

subsection \<open>Vocabulary for the statements\<close>

text \<open>
  The calls of a trace, the part of a trace \<open>tr'\<close> that was added after \<open>tr\<close>, and
  the active state a reply carries (if it is one).
\<close>

definition calls :: "trace \<Rightarrow> unit_call list" where
  "calls tr = map fst tr"

definition issued :: "trace \<Rightarrow> trace \<Rightarrow> trace" where
  "issued tr tr' = drop (length tr) tr'"

fun active_state_of :: "reply \<Rightarrow> string option" where
  "active_state_of (Inl e) = None"
| "active_state_of (Inr (active_state, sub_state)) = Some active_state"

fun is_status :: "unit_call \<Rightarrow> bool" where
  "is_status (GetUnitStatus u) = True"
| "is_status _ = False"

fun is_stop :: "unit_call \<Rightarrow> bool" where
  "is_stop (StopUnit u) = True"
| "is_stop _ = False"

text \<open>The two status checks of every configured mount, in list order.\<close>

definition status_checks :: "string list \<Rightarrow> unit_call list" where
  "status_checks names =
     concat (map (\<lambda>name. [GetUnitStatus (name @ ''.mount''),
                             GetUnitStatus (name @ ''.automount'')]) names)"

text \<open>What the second loop issues for the automounts it is given.\<close>

definition restart_calls :: "string list \<Rightarrow> unit_call list" where
  "restart_calls names =
     concat (map (\<lambda>name. [ResetFailed (name @ ''.automount''),
                             StartUnit (name @ ''.automount'')]) names)"

text \<open>
  A trace entry that is the status fetch of a configured automount and whose active
  state is not \<open>active\<close>; one that is the status fetch of a configured mount and whose
  active state is \<open>failed\<close>.
\<close>

fun nonactive_automount :: "string list \<Rightarrow> unit_call \<times> reply \<Rightarrow> bool" where
  "nonactive_automount names (GetUnitStatus u, r) =
     (u \<in> set (map (\<lambda>name. name @ ''.automount'') names) \<and>
      active_state_of r \<noteq> Some ''active'')"
| "nonactive_automount names (c, r) = False"

fun failed_mount :: "string list \<Rightarrow> unit_call \<times> reply \<Rightarrow> bool" where
  "failed_mount names (GetUnitStatus u, r) =
     (u \<in> set (map (\<lambda>name. name @ ''.mount'') names) \<and>
      active_state_of r = Some ''failed'')"
| "failed_mount names (c, r) = False"

text \<open>
  A reply that is no exception; a stretch of a trace in which no call failed; and a
  stretch \<open>new\<close> added after \<open>tr\<close> in which every reply is what the service manager
  answers to that call at that point.
\<close>

fun succeeded :: "reply \<Rightarrow> bool" where
  "succeeded (Inl e) = False"
| "succeeded (Inr v) = True"

definition no_failure :: "trace \<Rightarrow> bool" where
  "no_failure new = list_all (\<lambda>x. succeeded (snd x)) new"

fun answered :: "systemd \<Rightarrow> trace \<Rightarrow> trace \<Rightarrow> bool" where
  "answered sd tr [] = True"
| "answered sd tr (x # new) = (snd x = sd tr (fst x) \<and> answered sd (tr @ [x]) new)"

text \<open>
  What one round of the first loop issues for the mount \<open>name\<close> when it goes through:
  the status check of the mount; the reset of the mount exactly when that check
  returned \<open>failed\<close>; the status check of the automount; all of them answered without
  failure. The round asks for a restart when the last reply, the automount's, is not
  \<open>active\<close>. \<open>needing\<close> lists the mounts whose round asked for a restart.
\<close>

definition mount_segment :: "string \<Rightarrow> trace \<Rightarrow> bool" where
  "mount_segment name seg =
     (no_failure seg \<and>
      (if active_state_of (snd (hd seg)) = Some ''failed''
       then calls seg = [GetUnitStatus (name @ ''.mount''), ResetFailed (name @ ''.mount''),
                         GetUnitStatus (name @ ''.automount'')]
       else calls seg = [GetUnitStatus (name @ ''.mount''),
                         GetUnitStatus (name @ ''.automount'')]))"

definition needs_restart :: "trace \<Rightarrow> bool" where
  "needs_restart seg = (active_state_of (snd (last seg)) \<noteq> Some ''active'')"

fun needing :: "string list \<Rightarrow> trace list \<Rightarrow> string list" where
  "needing (name # names) (seg # segs) =
     (if needs_restart seg then name # needing names segs else needing names segs)"
| "needing names segs = []"

definition target_stops :: "unit_call list" where
  "target_stops = [StopUnit ''network-online.target'',
                   StopUnit ''NetworkManager-wait-online.service'']"

text \<open>
  The calls of a run without restart under a fixed assignment \<open>st\<close> of active states:
  per mount the two status checks, with the reset of the mount between them exactly
  when the mount is assigned \<open>failed\<close>.
\<close>

definition read_only_calls :: "(string \<Rightarrow> string) \<Rightarrow> string list \<Rightarrow> unit_call list" where
  "read_only_calls st names =
     concat (map (\<lambda>name.
       if st (name @ ''.mount'') = ''failed''
       then [GetUnitStatus (name @ ''.mount''), ResetFailed (name @ ''.mount''),
             GetUnitStatus (name @ ''.automount'')]
       else [GetUnitStatus (name @ ''.mount''), GetUnitStatus (name @ ''.automount'')]) names)"

text \<open>A service manager none of whose calls ever fails.\<close>

definition never_fails :: "systemd \<Rightarrow> bool" where
  "never_fails sd = (\<forall>h c. \<exists>v. sd h c = Inr v)"

text \<open>
  A service manager that answers every status query from a fixed assignment of active
  states to unit names and lets every other call succeed: the fake of the scenarios.
\<close>

definition assigned_systemd :: "(string \<Rightarrow> string) \<Rightarrow> systemd" where
  "assigned_systemd st h c =
     (case c of
        GetUnitStatus u \<Rightarrow> Inr (st u, [])
      | _ \<Rightarrow> Inr ([], []))"

text \<open>A service manager whose first call fails and whose later calls succeed.\<close>

definition first_call_fails :: systemd where
  "first_call_fails h c = (if h = [] then Inl (DBusError ''timeout'') else Inr ([], []))"

text \<open>
  A service manager that reports a unit as \<open>active\<close> once it has been asked to start
  it and as \<open>inactive\<close> before, and lets every call succeed.
\<close>

definition live_systemd :: systemd where
  "live_systemd h c =
     (case c of
        GetUnitStatus u \<Rightarrow>
          Inr (if StartUnit u \<in> set (calls h) then ''active'' else ''inactive'', [])
      | _ \<Rightarrow> Inr ([], []))"

text \<open>The configurations of the scenarios.\<close>

definition one_live :: mount_control where
  "one_live = \<lparr>systemd_manager_interface = live_systemd, list_of_mount = [''a'']\<rparr>"

definition after_first_run :: trace where
  "after_first_run = snd (restart_all_mounts one_live [])"

definition two_all_inactive :: mount_control where
  "two_all_inactive =
     \<lparr>systemd_manager_interface = assigned_systemd (\<lambda>u. ''inactive''),
      list_of_mount = [''a'', ''b'']\<rparr>"

definition data_failed_inactive :: mount_control where
  "data_failed_inactive =
     \<lparr>systemd_manager_interface =
        assigned_systemd (\<lambda>u. if u = ''data.mount'' then ''failed'' else ''inactive''),
      list_of_mount = [''data'']\<rparr>"

definition data_failed_active :: mount_control where
  "data_failed_active =
     \<lparr>systemd_manager_interface =
        assigned_systemd (\<lambda>u. if u = ''data.mount'' then ''failed'' else ''active''),
      list_of_mount = [''data'']\<rparr>"

definition two_all_active :: mount_control where
  "two_all_active =
     \<lparr>systemd_manager_interface = assigned_systemd (\<lambda>u. ''active''),
      list_of_mount = [''a'', ''b'']\<rparr>"

definition two_first_call_fails :: mount_control where
  "two_first_call_fails =
     \<lparr>systemd_manager_interface = first_call_fails, list_of_mount = [''a'', ''b'']\<rparr>"


section \<open>Handlers\<close>

text \<open>
  The monitors are given awaitable callables without arguments, \<open>stop_handler\<close> and
  \<open>restart_handler\<close>. A handler is run on the world it acts on (type \<open>'w\<close>; for
  \<open>MountControl\<close>'s methods, the trace of unit calls) and either raises or returns.
  What a monitor does with a handler is recorded, oldest first: awaiting it runs it on
  the spot; \<open>asyncio.get_running_loop().create_task(handler())\<close> only schedules it, and
  the run of the task is no part of the code that created it. An awaited handler runs
  to its end before the code that awaits it goes on: what other coroutines do while it
  is suspended is not modelled.
\<close>

type_synonym 'w handler = "'w \<Rightarrow> (error + unit) \<times> 'w"

datatype handler_name = Stop_handler | Restart_handler

datatype event = Awaited handler_name | Task_created handler_name

type_synonym 'w world = "event list \<times> 'w"

definition await_handler ::
  "handler_name \<Rightarrow> 'w handler \<Rightarrow> 'w world \<Rightarrow> (error + unit) \<times> 'w world" where
  "await_handler n h wd = (case h (snd wd) of (r, w') \<Rightarrow> (r, (fst wd @ [Awaited n], w')))"

definition create_task :: "handler_name \<Rightarrow> 'w world \<Rightarrow> 'w world" where
  "create_task n wd = (fst wd @ [Task_created n], snd wd)"

text \<open>The events of the world \<open>wd'\<close> that were added after \<open>wd\<close>.\<close>

definition events_since :: "'w world \<Rightarrow> 'w world \<Rightarrow> event list" where
  "events_since wd wd' = drop (length (fst wd)) (fst wd')"

section \<open>dbus\_monitoring.py\<close>

subsection \<open>The enumerations of the NetworkManager binding\<close>

text \<open>
  \<open>DeviceState\<close> and \<open>NetworkManagerState\<close> come from the NetworkManager binding the
  module imports, not from this repository. They are integer enumerations with the
  values of the NetworkManager D-Bus interface, so a member compares equal to its
  integer, and calling the enumeration on an integer that is no member's value raises
  ValueError.
\<close>

datatype DeviceState =
    DEV_UNKNOWN | DEV_UNMANAGED | DEV_UNAVAILABLE | DEV_DISCONNECTED | DEV_PREPARE
  | DEV_CONFIG | DEV_NEED_AUTH | DEV_IP_CONFIG | IP_CHECK | SECONDARIES | ACTIVATED
  | DEV_DEACTIVATING | DEV_FAILED

fun DeviceState_value :: "DeviceState \<Rightarrow> int" where
  "DeviceState_value DEV_UNKNOWN = 0"
| "DeviceState_value DEV_UNMANAGED = 10"
| "DeviceState_value DEV_UNAVAILABLE = 20"
| "DeviceState_value DEV_DISCONNECTED = 30"
| "DeviceState_value DEV_PREPARE = 40"
| "DeviceState_value DEV_CONFIG = 50"
| "DeviceState_value DEV_NEED_AUTH = 60"
| "DeviceState_value DEV_IP_CONFIG = 70"
| "DeviceState_value IP_CHECK = 80"
| "DeviceState_value SECONDARIES = 90"
| "DeviceState_value ACTIVATED = 100"
| "DeviceState_value DEV_DEACTIVATING = 110"
| "DeviceState_value DEV_FAILED = 120"

datatype NetworkManagerState =
    NM_UNKNOWN | ASLEEP | DISCONNECTED | DISCONNECTING | CONNECTING
  | CONNECTED_LOCAL | CONNECTED_SITE | GLOBAL

text \<open>\<open>NetworkManagerState(state)\<close>.\<close>

definition NetworkManagerState_of :: "int \<Rightarrow> error + NetworkManagerState" where
  "NetworkManagerState_of state =
     (if state = 0 then Inr NM_UNKNOWN
      else if state = 10 then Inr ASLEEP
      else if state = 20 then Inr DISCONNECTED
      else if state = 30 then Inr DISCONNECTING
      else if state = 40 then Inr CONNECTING
      else if state = 50 then Inr CONNECTED_LOCAL
      else if state = 60 then Inr CONNECTED_SITE
      else if state = 70 then Inr GLOBAL
      else Inl ValueError)"

subsection \<open>Messages\<close>

datatype MessageType = METHOD_CALL | METHOD_RETURN | ERROR | SIGNAL

text \<open>
  The fields of a D-Bus message the handler reads. A message need not name an
  interface. The body is the list of the message's arguments; the handler only ever
  compares the first one with integers.
\<close>

record message =
  message_type :: MessageType
  interface :: "string option"
  path :: string
  body :: "int list"

text \<open>\<open>str.split(sep)\<close> for a one-character separator: never the empty list.\<close>

fun py_split :: "char \<Rightarrow> string \<Rightarrow> string list" where
  "py_split sep [] = [[]]"
| "py_split sep (c # cs) =
     (if c = sep then [] # py_split sep cs
      else (case py_split sep cs of
              [] \<Rightarrow> [[c]]
            | w # ws \<Rightarrow> (c # w) # ws))"

text \<open>\<open>message.path.split("/")[-1]\<close>.\<close>

definition get_device_id :: "message \<Rightarrow> string" where
  "get_device_id m = last (py_split (CHR ''/'') (path m))"

subsection \<open>DbusMonitoring\<close>

definition DEVICE_ONLINE_STATE :: "DeviceState list" where
  "DEVICE_ONLINE_STATE = [ACTIVATED, IP_CHECK, SECONDARIES]"

definition GLOBAL_ONLINE_STATE :: "NetworkManagerState list" where
  "GLOBAL_ONLINE_STATE = [CONNECTED_LOCAL, CONNECTED_SITE, GLOBAL]"

text \<open>
  The fields of the class that the two signal handlers read or write.
  \<open>current_global_state\<close> is \<open>None\<close> until the first global signal.
\<close>

record 'w dbus_monitoring =
  device_list :: "string \<rightharpoonup> bool"
  current_global_state :: "bool option"
  stop_handler :: "'w handler"
  restart_handler :: "'w handler"

definition DbusMonitoring_init :: "'w handler \<Rightarrow> 'w handler \<Rightarrow> 'w dbus_monitoring" where
  "DbusMonitoring_init stop restart =
     \<lparr>device_list = Map.empty, current_global_state = None,
      stop_handler = stop, restart_handler = restart\<rparr>"

text \<open>
  \<open>device_state_changed\<close>. \<open>message.body[0]\<close> raises IndexError on an empty body,
  before anything is written.
\<close>

definition device_state_changed ::
  "message \<Rightarrow> 'w dbus_monitoring \<Rightarrow> 'w world \<Rightarrow>
     (error + bool) \<times> 'w dbus_monitoring \<times> 'w world" where
  "device_state_changed m self wd =
     (if message_type m = SIGNAL \<and>
         interface m = Some ''org.freedesktop.NetworkManager.Device''
      then
        (let device_id = get_device_id m in
         case body m of
           [] \<Rightarrow> (Inl IndexError, self, wd)
         | b0 # _ \<Rightarrow>
             (let device_state = (b0 \<in> set (map DeviceState_value DEVICE_ONLINE_STATE)) in
              if device_list self device_id = None \<or>
                 device_list self device_id \<noteq> Some device_state
              then
                (Inr False,
                 self\<lparr>device_list := (device_list self)(device_id \<mapsto> device_state)\<rparr>,
                 if device_state then create_task Restart_handler wd else wd)
              else (Inr False, self, wd)))
      else (Inr False, self, wd))"

text \<open>
  \<open>global_state_changed\<close>. The comparison \<open>self.current_global_state != (...)\<close> is
  between \<open>None\<close> or a boolean and a boolean.
\<close>

definition global_state_changed ::
  "int \<Rightarrow> 'w dbus_monitoring \<Rightarrow> 'w world \<Rightarrow>
     (error + unit) \<times> 'w dbus_monitoring \<times> 'w world" where
  "global_state_changed state self wd =
     (case NetworkManagerState_of state of
        Inl e \<Rightarrow> (Inl e, self, wd)
      | Inr network_state \<Rightarrow>
          if current_global_state self \<noteq> Some (network_state \<in> set GLOBAL_ONLINE_STATE)
          then
            (let self' = self\<lparr>current_global_state :=
                                Some (network_state \<in> set GLOBAL_ONLINE_STATE)\<rparr> in
             if \<not> (network_state \<in> set GLOBAL_ONLINE_STATE)
             then (case await_handler Stop_handler (stop_handler self') wd of
                     (r, wd') \<Rightarrow> (r, self', wd'))
             else (Inr (), self', wd))
          else (Inr (), self, wd))"

subsection \<open>Delivery of a sequence of signals\<close>

text \<open>
  The bus calls the handler once per signal, one signal after the other. An exception
  of one call goes to the caller in the library and does not reach the handler's next
  call, which finds the fields as the failed call left them.
\<close>

fun deliver_global ::
  "int list \<Rightarrow> 'w dbus_monitoring \<Rightarrow> 'w world \<Rightarrow> 'w dbus_monitoring \<times> 'w world" where
  "deliver_global [] self wd = (self, wd)"
| "deliver_global (state # states) self wd =
     (case global_state_changed state self wd of
        (r, self', wd') \<Rightarrow> deliver_global states self' wd')"

text \<open>
  For device messages the delivery also notes, message by message, how many events
  the handling of that message added.
\<close>

fun deliver_device ::
  "message list \<Rightarrow> 'w dbus_monitoring \<Rightarrow> 'w world \<Rightarrow>
     (message \<times> event list) list \<times> 'w dbus_monitoring \<times> 'w world" where
  "deliver_device [] self wd = ([], self, wd)"
| "deliver_device (m # ms) self wd =
     (case device_state_changed m self wd of
        (r, self', wd') \<Rightarrow>
          (case deliver_device ms self' wd' of
             (log, self'', wd'') \<Rightarrow>
               ((m, events_since wd wd') # log, self'', wd'')))"

subsection \<open>Vocabulary for the statements\<close>

text \<open>The derived online value of a global state and of a device message.\<close>

definition global_online :: "NetworkManagerState \<Rightarrow> bool" where
  "global_online network_state = (network_state \<in> set GLOBAL_ONLINE_STATE)"

definition device_online :: "message \<Rightarrow> bool" where
  "device_online m = (hd (body m) \<in> set (map DeviceState_value DEVICE_ONLINE_STATE))"

text \<open>
  A message the handler takes for a device-state signal, and one it can read the state
  of. \<open>device_online\<close> is only used for the latter.
\<close>

definition is_device_signal :: "message \<Rightarrow> bool" where
  "is_device_signal m =
     (message_type m = SIGNAL \<and> interface m = Some ''org.freedesktop.NetworkManager.Device'')"

definition readable :: "message \<Rightarrow> bool" where
  "readable m = (is_device_signal m \<and> body m \<noteq> [])"

text \<open>
  The derived online values of the signals of a sequence that carry a known state,
  in order.
\<close>

fun derived_global :: "int list \<Rightarrow> bool list" where
  "derived_global [] = []"
| "derived_global (state # states) =
     (case NetworkManagerState_of state of
        Inl e \<Rightarrow> derived_global states
      | Inr network_state \<Rightarrow> global_online network_state # derived_global states)"

text \<open>
  The number of online-to-offline steps, and of offline-to-online steps, in the
  sequence that starts with \<open>prev\<close> and goes on with the list.
\<close>

fun falls :: "bool \<Rightarrow> bool list \<Rightarrow> nat" where
  "falls prev [] = 0"
| "falls prev (b # bs) = (if prev \<and> \<not> b then 1 else 0) + falls b bs"

fun rises :: "bool \<Rightarrow> bool list \<Rightarrow> nat" where
  "rises prev [] = 0"
| "rises prev (b # bs) = (if \<not> prev \<and> b then 1 else 0) + rises b bs"

definition count_event :: "event \<Rightarrow> event list \<Rightarrow> nat" where
  "count_event e evs = length (filter (\<lambda>x. x = e) evs)"

text \<open>
  The restart tasks created while handling the messages of device \<open>d\<close>, from the log
  of a delivery.
\<close>

definition restarts_for :: "string \<Rightarrow> (message \<times> event list) list \<Rightarrow> nat" where
  "restarts_for d log =
     sum_list (map (\<lambda>(m, evs). count_event (Task_created Restart_handler) evs)
                   (filter (\<lambda>(m, evs). get_device_id m = d) log))"

section \<open>journal\_monitoring.py\<close>

text \<open>
  A journal entry is a dictionary from field names to values. The loop body of
  \<open>start\<close> for the entries of one wake, in arrival order: \<open>entry["MESSAGE"]\<close> and, for
  the debug line of a matching entry, \<open>entry["__REALTIME_TIMESTAMP"]\<close> raise KeyError
  when the field is missing; an exception of the awaited handler leaves the loop.
\<close>

type_synonym journal_entry = "string \<rightharpoonup> string"

definition stall_signature :: "string \<Rightarrow> bool" where
  "stall_signature msg = (prefix ''CIFS: VFS:'' msg \<and> sublist ''has not responded'' msg)"

fun process_entries ::
  "'w handler \<Rightarrow> journal_entry list \<Rightarrow> 'w world \<Rightarrow> (error + unit) \<times> 'w world" where
  "process_entries stop [] wd = (Inr (), wd)"
| "process_entries stop (entry # entries) wd =
     (case entry ''MESSAGE'' of
        None \<Rightarrow> (Inl KeyError, wd)
      | Some msg \<Rightarrow>
          if stall_signature msg then
            (case entry ''__REALTIME_TIMESTAMP'' of
               None \<Rightarrow> (Inl KeyError, wd)
             | Some _ \<Rightarrow>
                 (case await_handler Stop_handler stop wd of
                    (Inl e, wd') \<Rightarrow> (Inl e, wd')
                  | (Inr _, wd') \<Rightarrow> process_entries stop entries wd'))
          else process_entries stop entries wd)"

text \<open>An entry whose message carries the stall signature.\<close>

definition matching :: "journal_entry \<Rightarrow> bool" where
  "matching entry = (case entry ''MESSAGE'' of None \<Rightarrow> False | Some msg \<Rightarrow> stall_signature msg)"

text \<open>An entry with both fields the loop reads.\<close>

definition well_formed :: "journal_entry \<Rightarrow> bool" where
  "well_formed entry = (entry ''MESSAGE'' \<noteq> None \<and> entry ''__REALTIME_TIMESTAMP'' \<noteq> None)"

definition kernel_entry :: "string \<Rightarrow> journal_entry" where
  "kernel_entry msg = [''MESSAGE'' \<mapsto> msg, ''__REALTIME_TIMESTAMP'' \<mapsto> ''0'']"

section \<open>\_\_main\_\_.py\<close>

text \<open>
  \<open>main\<close> hands \<open>mount_controller.stop_mounts\<close> and
  \<open>mount_controller.restart_all_mounts\<close> to \<open>DbusMonitoring\<close> and
  \<open>mount_controller.stop_mounts\<close> to \<open>JournalctlMonitoring\<close>.
\<close>

definition main_dbus_monitoring :: "mount_control \<Rightarrow> trace dbus_monitoring" where
  "main_dbus_monitoring mount_controller =
     DbusMonitoring_init (stop_mounts mount_controller) (restart_all_mounts mount_controller)"

definition main_journal_stop_handler :: "mount_control \<Rightarrow> trace handler" where
  "main_journal_stop_handler mount_controller = stop_mounts mount_controller"

subsection \<open>The inputs of the scenarios\<close>

text \<open>
  A state-changed signal of the device with the given number, as NetworkManager sends
  it: new state, old state, reason.
\<close>

definition device_signal :: "string \<Rightarrow> int \<Rightarrow> message" where
  "device_signal number new_state =
     \<lparr>message_type = SIGNAL,
      interface = Some ''org.freedesktop.NetworkManager.Device'',
      path = ''/org/freedesktop/NetworkManager/Devices/'' @ number,
      body = [new_state, 0, 0]\<rparr>"

text \<open>A signal on the device interface that carries no argument, and a method return.\<close>

definition empty_device_signal :: message where
  "empty_device_signal =
     \<lparr>message_type = SIGNAL,
      interface = Some ''org.freedesktop.NetworkManager.Device'',
      path = ''/org/freedesktop/NetworkManager/Devices/2'',
      body = []\<rparr>"

definition method_return :: message where
  "method_return =
     \<lparr>message_type = METHOD_RETURN, interface = None, path = [], body = []\<rparr>"

text \<open>The monitor of \<open>main\<close> for two mounts, fresh and after some signals.\<close>

definition fresh_monitor :: "trace dbus_monitoring" where
  "fresh_monitor = main_dbus_monitoring two_all_active"

definition offline_monitor :: "trace dbus_monitoring" where
  "offline_monitor = fresh_monitor\<lparr>current_global_state := Some False\<rparr>"

definition device2_online_monitor :: "trace dbus_monitoring" where
  "device2_online_monitor = fresh_monitor\<lparr>device_list := [''2'' \<mapsto> True]\<rparr>"

definition stall_message :: string where
  "stall_message = ''CIFS: VFS: server nas has not responded in 180 seconds''"

section \<open>Properties of mount\_control.py\<close>

subsection \<open>Single calls\<close>

lemma issued_append [simp]: "issued tr (tr @ new) = new"
  by (simp add: issued_def)

lemma calls_append [simp]: "calls (xs @ ys) = calls xs @ calls ys"
  by (simp add: calls_def)

lemma calls_simps [simp]: "calls [] = []" "calls (x # xs) = fst x # calls xs"
  by (simp_all add: calls_def)

lemma never_failsD: "never_fails sd \<Longrightarrow> \<exists>v. sd h c = Inr v"
  by (simp add: never_fails_def)

lemma never_fails_assigned [simp]: "never_fails (assigned_systemd st)"
  by (simp add: never_fails_def assigned_systemd_def split: unit_call.splits)

lemma stop_unit_ok:
  "never_fails (systemd_manager_interface self) \<Longrightarrow>
   stop_unit self u tr = (Inr (), tr @ [(StopUnit u, systemd_manager_interface self tr (StopUnit u))])"
  using never_failsD [of "systemd_manager_interface self" tr "StopUnit u"]
  by (auto simp: stop_unit_def remote_def)

lemma reset_failed_ok:
  "never_fails (systemd_manager_interface self) \<Longrightarrow>
   reset_failed self u tr =
     (Inr (), tr @ [(ResetFailed u, systemd_manager_interface self tr (ResetFailed u))])"
  using never_failsD [of "systemd_manager_interface self" tr "ResetFailed u"]
  by (auto simp: reset_failed_def remote_def)

lemma start_unit_ok:
  "never_fails (systemd_manager_interface self) \<Longrightarrow>
   start_unit self u tr =
     (Inr (), tr @ [(StartUnit u, systemd_manager_interface self tr (StartUnit u))])"
  using never_failsD [of "systemd_manager_interface self" tr "StartUnit u"]
  by (auto simp: start_unit_def remote_def)

lemma get_unit_status_eq:
  "get_unit_status self u tr =
     (systemd_manager_interface self tr (GetUnitStatus u),
      tr @ [(GetUnitStatus u, systemd_manager_interface self tr (GetUnitStatus u))])"
  by (simp add: get_unit_status_def remote_def)

lemma active_state_of_Some: "active_state_of r = Some a \<Longrightarrow> \<exists>sub. r = Inr (a, sub)"
  by (cases r) auto


lemma no_failure_simps [simp]:
  "no_failure [] = True"
  "no_failure (x # xs) = (succeeded (snd x) \<and> no_failure xs)"
  "no_failure (xs @ ys) = (no_failure xs \<and> no_failure ys)"
  by (simp_all add: no_failure_def)

lemma answered_append [simp]:
  "answered sd tr (xs @ ys) = (answered sd tr xs \<and> answered sd (tr @ xs) ys)"
  by (induction xs arbitrary: tr) auto

lemma answered_never_fails: "never_fails sd \<Longrightarrow> answered sd tr new \<Longrightarrow> no_failure new"
proof (induction new arbitrary: tr)
  case Nil
  show ?case by simp
next
  case (Cons x new)
  moreover obtain v where "sd tr (fst x) = Inr v"
    using never_failsD [OF Cons.prems(1)] by blast
  ultimately show ?case by auto
qed

lemma failed_last: "new \<noteq> [] \<Longrightarrow> snd (last new) = Inl e \<Longrightarrow> \<not> no_failure new"
  by (induction new) (auto split: if_splits)

text \<open>Single calls, whatever the service manager answers.\<close>

lemma reset_failed_eq:
  "reset_failed self u tr =
     (case systemd_manager_interface self tr (ResetFailed u) of Inl e \<Rightarrow> Inl e | Inr v \<Rightarrow> Inr (),
      tr @ [(ResetFailed u, systemd_manager_interface self tr (ResetFailed u))])"
  by (simp add: reset_failed_def remote_def split: sum.splits)

lemma stop_unit_eq:
  "stop_unit self u tr =
     (case systemd_manager_interface self tr (StopUnit u) of Inl e \<Rightarrow> Inl e | Inr v \<Rightarrow> Inr (),
      tr @ [(StopUnit u, systemd_manager_interface self tr (StopUnit u))])"
  by (simp add: stop_unit_def remote_def split: sum.splits)

lemma start_unit_eq:
  "start_unit self u tr =
     (case systemd_manager_interface self tr (StartUnit u) of Inl e \<Rightarrow> Inl e | Inr v \<Rightarrow> Inr (),
      tr @ [(StartUnit u, systemd_manager_interface self tr (StartUnit u))])"
  by (simp add: start_unit_def remote_def split: sum.splits)


lemma stop_loop_general:
  "\<exists>k new. snd (stop_loop self names tr) = tr @ new \<and> k \<le> length names \<and>
     answered (systemd_manager_interface self) tr new \<and>
     calls new = map (\<lambda>name. StopUnit (name @ ''.mount'')) (take k names) \<and>
     no_failure (butlast new) \<and>
     (case fst (stop_loop self names tr) of
        Inr u \<Rightarrow> k = length names \<and> no_failure new
      | Inl e \<Rightarrow> new \<noteq> [] \<and> snd (last new) = Inl e)"
proof (induction names arbitrary: tr)
  case Nil
  show ?case by simp
next
  case (Cons name names)
  let ?sd = "systemd_manager_interface self"
  let ?r = "?sd tr (StopUnit (name @ ''.mount''))"
  let ?e = "(StopUnit (name @ ''.mount''), ?r)"
  show ?case
  proof (cases ?r)
    case (Inl e)
    then show ?thesis
      by (intro exI [of _ "Suc 0"] exI [of _ "[?e]"]) (simp add: stop_unit_eq)
  next
    case (Inr v)
    then have eq: "stop_loop self (name # names) tr = stop_loop self names (tr @ [?e])"
      by (simp add: stop_unit_eq)
    from Cons.IH [of "tr @ [?e]"] obtain k new where
      *: "snd (stop_loop self names (tr @ [?e])) = (tr @ [?e]) @ new"
         "k \<le> length names"
         "answered ?sd (tr @ [?e]) new"
         "calls new = map (\<lambda>name. StopUnit (name @ ''.mount'')) (take k names)"
         "no_failure (butlast new)"
         "case fst (stop_loop self names (tr @ [?e])) of
            Inr u \<Rightarrow> k = length names \<and> no_failure new
          | Inl e \<Rightarrow> new \<noteq> [] \<and> snd (last new) = Inl e"
      by blast
    show ?thesis
      unfolding eq using * Inr
      by (intro exI [of _ "Suc k"] exI [of _ "?e # new"])
         (auto split: sum.splits simp: butlast_append)
  qed
qed

subsection \<open>The scenario of one failed mount with an inactive automount\<close>

text \<open>
  Claim C1. The configured list is \<open>["data"]\<close>; whenever it is asked, the service
  manager reports \<open>data.mount\<close> as \<open>failed\<close> and \<open>data.automount\<close> as \<open>inactive\<close>,
  and no call fails. Then \<open>restart_all_mounts\<close> returns normally and issues exactly:
  status(data.mount), reset\_failed(data.mount), status(data.automount),
  stop(network-online.target), stop(NetworkManager-wait-online.service),
  reset\_failed(data.automount), start(data.automount).
\<close>

theorem restart_all_mounts_scenario:
  assumes nf: "never_fails (systemd_manager_interface self)"
    and names: "list_of_mount self = [''data'']"
    and m: "\<And>h. active_state_of (systemd_manager_interface self h (GetUnitStatus ''data.mount''))
               = Some ''failed''"
    and a: "\<And>h. active_state_of (systemd_manager_interface self h (GetUnitStatus ''data.automount''))
               = Some ''inactive''"
  shows "fst (restart_all_mounts self tr) = Inr () \<and>
         calls (issued tr (snd (restart_all_mounts self tr))) =
           [GetUnitStatus ''data.mount'', ResetFailed ''data.mount'',
            GetUnitStatus ''data.automount'',
            StopUnit ''network-online.target'', StopUnit ''NetworkManager-wait-online.service'',
            ResetFailed ''data.automount'', StartUnit ''data.automount'']"
proof -
  let ?sd = "systemd_manager_interface self"
  obtain s1 where r1: "?sd tr (GetUnitStatus ''data.mount'') = Inr (''failed'', s1)"
    using active_state_of_Some [OF m] by blast
  let ?e1 = "(GetUnitStatus ''data.mount'', Inr (''failed'', s1))"
  let ?e2 = "(ResetFailed ''data.mount'', ?sd (tr @ [?e1]) (ResetFailed ''data.mount''))"
  obtain s2 where r2: "?sd (tr @ [?e1, ?e2]) (GetUnitStatus ''data.automount'') = Inr (''inactive'', s2)"
    using active_state_of_Some [OF a] by blast
  let ?e3 = "(GetUnitStatus ''data.automount'', Inr (''inactive'', s2))"
  have c: "collect_automounts self [''data''] [] tr = (Inr [''data''], tr @ [?e1, ?e2, ?e3])"
    by (simp add: get_unit_status_eq r1 r2 reset_failed_ok [OF nf])
  show ?thesis
    unfolding restart_all_mounts_def names c
    by (simp add: stop_unit_ok [OF nf] reset_failed_ok [OF nf] start_unit_ok [OF nf])
qed

theorem restart_all_mounts_scenario_witness:
  "never_fails (systemd_manager_interface data_failed_inactive) \<and>
   list_of_mount data_failed_inactive = [''data''] \<and>
   (\<forall>h. active_state_of (systemd_manager_interface data_failed_inactive h
          (GetUnitStatus ''data.mount'')) = Some ''failed'') \<and>
   (\<forall>h. active_state_of (systemd_manager_interface data_failed_inactive h
          (GetUnitStatus ''data.automount'')) = Some ''inactive'') \<and>
   calls (snd (restart_all_mounts data_failed_inactive [])) =
     [GetUnitStatus ''data.mount'', ResetFailed ''data.mount'',
      GetUnitStatus ''data.automount'',
      StopUnit ''network-online.target'', StopUnit ''NetworkManager-wait-online.service'',
      ResetFailed ''data.automount'', StartUnit ''data.automount'']"
proof -
  have nf: "never_fails (systemd_manager_interface data_failed_inactive)"
    by (simp add: data_failed_inactive_def)
  have names: "list_of_mount data_failed_inactive = [''data'']"
    by (simp add: data_failed_inactive_def)
  have m: "active_state_of (systemd_manager_interface data_failed_inactive h
            (GetUnitStatus ''data.mount'')) = Some ''failed''" for h
    by (simp add: data_failed_inactive_def assigned_systemd_def)
  have a: "active_state_of (systemd_manager_interface data_failed_inactive h
            (GetUnitStatus ''data.automount'')) = Some ''inactive''" for h
    by (simp add: data_failed_inactive_def assigned_systemd_def)
  from restart_all_mounts_scenario [OF nf names m a, of "[]"] nf names m a
  show ?thesis by (simp add: issued_def)
qed

lemma stop_loop_ok:
  "never_fails (systemd_manager_interface self) \<Longrightarrow> fst (stop_loop self names tr) = Inr ()"
  by (induction names arbitrary: tr) (simp_all add: stop_unit_ok)

subsection \<open>stop\_mounts stops at the first failing call\<close>

text \<open>
  Claim C2, as the code has it. \<open>stop_mounts\<close> issues stop calls for the \<open>.mount\<close>
  units of a prefix of the configured list, in list order, and nothing else; every
  reply in its trace is the service manager's. Every call but the last one issued has
  succeeded. When \<open>stop_mounts\<close> returns normally, every call has succeeded and the
  prefix is the whole list; when it raises, the error is the failed reply to the last
  call issued, and the mounts after that one were not attempted. So a failed stop is
  always raised to the caller, and it is the last call. When no call of the service
  manager fails, \<open>stop_mounts\<close> returns normally.
\<close>

theorem stop_mounts_until_first_failure:
  "\<exists>k. k \<le> length (list_of_mount self) \<and>
     answered (systemd_manager_interface self) tr (issued tr (snd (stop_mounts self tr))) \<and>
     calls (issued tr (snd (stop_mounts self tr))) =
       map (\<lambda>name. StopUnit (name @ ''.mount'')) (take k (list_of_mount self)) \<and>
     no_failure (butlast (issued tr (snd (stop_mounts self tr)))) \<and>
     (case fst (stop_mounts self tr) of
        Inr u \<Rightarrow> k = length (list_of_mount self) \<and>
                 no_failure (issued tr (snd (stop_mounts self tr)))
      | Inl e \<Rightarrow> issued tr (snd (stop_mounts self tr)) \<noteq> [] \<and>
                 snd (last (issued tr (snd (stop_mounts self tr)))) = Inl e) \<and>
     (never_fails (systemd_manager_interface self) \<longrightarrow> fst (stop_mounts self tr) = Inr ())"
proof -
  obtain k new where
    *: "snd (stop_loop self (list_of_mount self) tr) = tr @ new"
       "k \<le> length (list_of_mount self)"
       "answered (systemd_manager_interface self) tr new"
       "calls new = map (\<lambda>name. StopUnit (name @ ''.mount'')) (take k (list_of_mount self))"
       "no_failure (butlast new)"
       "case fst (stop_loop self (list_of_mount self) tr) of
          Inr u \<Rightarrow> k = length (list_of_mount self) \<and> no_failure new
        | Inl e \<Rightarrow> new \<noteq> [] \<and> snd (last new) = Inl e"
    using stop_loop_general [of self "list_of_mount self" tr] by blast
  have iss: "issued tr (snd (stop_mounts self tr)) = new"
    using *(1) by (simp add: stop_mounts_def)
  have res: "fst (stop_mounts self tr) = fst (stop_loop self (list_of_mount self) tr)"
    by (simp add: stop_mounts_def)
  have nf: "fst (stop_mounts self tr) = Inr ()"
    if "never_fails (systemd_manager_interface self)"
    using that by (simp add: stop_mounts_def stop_loop_ok)
  show ?thesis
    unfolding iss res using * nf [unfolded res] by (intro exI [of _ k]) simp
qed

theorem stop_mounts_until_first_failure_witness:
  "never_fails (systemd_manager_interface two_all_active) \<and>
   fst (stop_mounts two_all_active []) = Inr () \<and>
   calls (snd (stop_mounts two_all_active [])) = [StopUnit ''a.mount'', StopUnit ''b.mount'']"
proof -
  have nf: "never_fails (systemd_manager_interface two_all_active)"
    by (simp add: two_all_active_def)
  from stop_mounts_until_first_failure [of two_all_active "[]"] nf
  have "fst (stop_mounts two_all_active []) = Inr ()" by blast
  moreover have "calls (snd (stop_mounts two_all_active [])) =
      [StopUnit ''a.mount'', StopUnit ''b.mount'']"
    by (simp add: two_all_active_def stop_mounts_def stop_unit_def remote_def
        assigned_systemd_def)
  ultimately show ?thesis using nf by simp
qed

text \<open>
  Claim C2 as stated fails: with the mounts \<open>a\<close> and \<open>b\<close> and a service manager whose
  first call fails, \<open>stop_mounts\<close> raises after the stop of \<open>a.mount\<close> and never
  attempts \<open>b.mount\<close>.
\<close>

theorem stop_mounts_aborts_counterexample:
  "stop_mounts two_first_call_fails [] =
     (Inl (DBusError ''timeout''), [(StopUnit ''a.mount'', Inl (DBusError ''timeout''))])"
  by (simp add: two_first_call_fails_def stop_mounts_def stop_unit_def remote_def
      first_call_fails_def)

subsection \<open>The shape of a run of restart\_all\_mounts\<close>

lemma mount_neq_automount: "n @ ''.mount'' \<noteq> n' @ ''.automount''"
proof
  assume "n @ ''.mount'' = n' @ ''.automount''"
  then have "rev (n @ ''.mount'') = rev (n' @ ''.automount'')" by simp
  then show False by simp
qed

text \<open>One round of the first loop: it aborts on a failed call or adds one segment.\<close>

lemma collect_round:
  "(\<exists>e fail. collect_automounts self (name # names) acc tr = (Inl e, tr @ fail) \<and>
       answered (systemd_manager_interface self) tr fail \<and> fail \<noteq> [] \<and>
       snd (last fail) = Inl e) \<or>
   (\<exists>seg. mount_segment name seg \<and> answered (systemd_manager_interface self) tr seg \<and>
       collect_automounts self (name # names) acc tr =
         collect_automounts self names (if needs_restart seg then acc @ [name] else acc)
           (tr @ seg))"
proof -
  let ?sd = "systemd_manager_interface self"
  let ?nm = "name @ ''.mount''" and ?na = "name @ ''.automount''"
  let ?r1 = "?sd tr (GetUnitStatus ?nm)"
  let ?e1 = "(GetUnitStatus ?nm, ?r1)"
  show ?thesis
  proof (cases ?r1)
    case (Inl e)
    then have "collect_automounts self (name # names) acc tr = (Inl e, tr @ [?e1])"
      by (simp add: get_unit_status_eq)
    with Inl show ?thesis
      by (intro disjI1 exI [of _ e] exI [of _ "[?e1]"]) simp
  next
    case r1: (Inr v1)
    obtain a1 s1 where v1: "v1 = (a1, s1)" by (cases v1)
    let ?r = "?sd (tr @ [?e1]) (ResetFailed ?nm)"
    let ?e2 = "(ResetFailed ?nm, ?r)"
    define mid where "mid = (if a1 = ''failed'' then [?e1, ?e2] else [?e1])"
    show ?thesis
    proof (cases "a1 = ''failed'' \<and> (\<exists>e. ?r = Inl e)")
      case True
      then obtain e where e: "?r = Inl e" and f: "a1 = ''failed''" by blast
      have "collect_automounts self (name # names) acc tr = (Inl e, tr @ [?e1, ?e2])"
        using r1 v1 f e by (simp add: get_unit_status_eq reset_failed_eq)
      then show ?thesis
        using e by (intro disjI1 exI [of _ e] exI [of _ "[?e1, ?e2]"]) simp
    next
      case False
      then have okr: "a1 = ''failed'' \<Longrightarrow> \<exists>v. ?r = Inr v"
        by (cases ?r) auto
      let ?r2 = "?sd (tr @ mid) (GetUnitStatus ?na)"
      let ?e3 = "(GetUnitStatus ?na, ?r2)"
      have step: "collect_automounts self (name # names) acc tr =
          (case get_unit_status self ?na (tr @ mid) of
             (Inl e, tr3) \<Rightarrow> (Inl e, tr3)
           | (Inr (active_state, _), tr3) \<Rightarrow>
               collect_automounts self names
                 (if active_state \<noteq> ''active'' then acc @ [name] else acc) tr3)"
        using r1 v1 okr
        by (auto simp: mid_def get_unit_status_eq reset_failed_eq split: sum.splits)
      have mid_ans: "answered ?sd tr mid"
        by (simp add: mid_def)
      have mid_ok: "no_failure mid"
        using r1 okr by (auto simp: mid_def)
      have mid_calls: "calls mid = (if a1 = ''failed''
          then [GetUnitStatus ?nm, ResetFailed ?nm] else [GetUnitStatus ?nm])"
        by (simp add: mid_def)
      have mid_hd: "mid \<noteq> []" "snd (hd mid) = Inr (a1, s1)"
        using r1 v1 by (simp_all add: mid_def)
      show ?thesis
      proof (cases ?r2)
        case (Inl e)
        have "collect_automounts self (name # names) acc tr = (Inl e, tr @ mid @ [?e3])"
          unfolding step using Inl by (simp add: get_unit_status_eq)
        then show ?thesis
          using Inl mid_ans by (intro disjI1 exI [of _ e] exI [of _ "mid @ [?e3]"]) simp
      next
        case r2: (Inr v2)
        obtain a2 s2 where v2: "v2 = (a2, s2)" by (cases v2)
        have seg: "mount_segment name (mid @ [?e3])"
          using mid_ok mid_calls mid_hd r2 by (auto simp: mount_segment_def)
        have nr: "needs_restart (mid @ [?e3]) = (a2 \<noteq> ''active'')"
          using r2 v2 by (simp add: needs_restart_def)
        have "collect_automounts self (name # names) acc tr =
           collect_automounts self names (if a2 \<noteq> ''active'' then acc @ [name] else acc)
             (tr @ mid @ [?e3])"
          unfolding step using r2 v2 by (simp add: get_unit_status_eq)
        with seg nr mid_ans show ?thesis
          by (intro disjI2 exI [of _ "mid @ [?e3]"]) simp
      qed
    qed
  qed
qed

lemma collect_general:
  "\<exists>new. snd (collect_automounts self names acc tr) = tr @ new \<and>
     answered (systemd_manager_interface self) tr new \<and>
     (case fst (collect_automounts self names acc tr) of
        Inl e \<Rightarrow> new \<noteq> [] \<and> snd (last new) = Inl e
      | Inr acc' \<Rightarrow>
          (\<exists>segs. new = concat segs \<and> list_all2 mount_segment names segs \<and>
                  acc' = acc @ needing names segs))"
proof (induction names arbitrary: acc tr)
  case Nil
  show ?case by simp
next
  case (Cons name names)
  let ?sd = "systemd_manager_interface self"
  from collect_round [of self name names acc tr]
  show ?case
  proof (elim disjE exE conjE)
    fix e fail
    assume "collect_automounts self (name # names) acc tr = (Inl e, tr @ fail)"
      "answered ?sd tr fail" "fail \<noteq> []" "snd (last fail) = Inl e"
    then show ?thesis by (intro exI [of _ fail]) simp
  next
    fix seg
    assume seg: "mount_segment name seg" and ans: "answered ?sd tr seg"
      and eq: "collect_automounts self (name # names) acc tr =
         collect_automounts self names (if needs_restart seg then acc @ [name] else acc)
           (tr @ seg)"
    let ?acc2 = "if needs_restart seg then acc @ [name] else acc"
    from Cons.IH [of ?acc2 "tr @ seg"] obtain new where
      n: "snd (collect_automounts self names ?acc2 (tr @ seg)) = (tr @ seg) @ new"
         "answered ?sd (tr @ seg) new"
         "case fst (collect_automounts self names ?acc2 (tr @ seg)) of
            Inl e \<Rightarrow> new \<noteq> [] \<and> snd (last new) = Inl e
          | Inr acc' \<Rightarrow>
              (\<exists>segs. new = concat segs \<and> list_all2 mount_segment names segs \<and>
                      acc' = ?acc2 @ needing names segs)"
      by blast
    show ?thesis
    proof (intro exI [of _ "seg @ new"] conjI)
      show "snd (collect_automounts self (name # names) acc tr) = tr @ seg @ new"
        unfolding eq using n(1) by simp
      show "answered ?sd tr (seg @ new)"
        using ans n(2) by simp
      show "case fst (collect_automounts self (name # names) acc tr) of
          Inl e \<Rightarrow> seg @ new \<noteq> [] \<and> snd (last (seg @ new)) = Inl e
        | Inr acc' \<Rightarrow>
            (\<exists>segs. seg @ new = concat segs \<and> list_all2 mount_segment (name # names) segs \<and>
                    acc' = acc @ needing (name # names) segs)"
      proof (cases "fst (collect_automounts self names ?acc2 (tr @ seg))")
        case (Inl e)
        with n(3) show ?thesis unfolding eq by simp
      next
        case (Inr acc')
        with n(3) obtain segs where
          "new = concat segs" "list_all2 mount_segment names segs"
          "acc' = ?acc2 @ needing names segs"
          by auto
        with seg have "\<exists>segs'. seg @ new = concat segs' \<and>
            list_all2 mount_segment (name # names) segs' \<and>
            acc' = acc @ needing (name # names) segs'"
          by (intro exI [of _ "seg # segs"]) simp
        with Inr show ?thesis
          unfolding eq by simp
      qed
    qed
  qed
qed

lemma restart_general:
  "\<exists>new. snd (restart_automounts self names tr) = tr @ new \<and>
     answered (systemd_manager_interface self) tr new \<and>
     (case fst (restart_automounts self names tr) of
        Inl e \<Rightarrow> new \<noteq> [] \<and> snd (last new) = Inl e
      | Inr u \<Rightarrow> calls new = restart_calls names \<and> no_failure new)"
proof (induction names arbitrary: tr)
  case Nil
  show ?case by (simp add: restart_calls_def)
next
  case (Cons name names)
  let ?sd = "systemd_manager_interface self"
  let ?na = "name @ ''.automount''"
  let ?r1 = "?sd tr (ResetFailed ?na)"
  let ?e1 = "(ResetFailed ?na, ?r1)"
  let ?r2 = "?sd (tr @ [?e1]) (StartUnit ?na)"
  let ?e2 = "(StartUnit ?na, ?r2)"
  show ?case
  proof (cases ?r1)
    case (Inl e)
    then show ?thesis
      by (intro exI [of _ "[?e1]"]) (simp add: reset_failed_eq)
  next
    case r1: (Inr v1)
    show ?thesis
    proof (cases ?r2)
      case (Inl e)
      with r1 show ?thesis
        by (intro exI [of _ "[?e1, ?e2]"]) (simp add: reset_failed_eq start_unit_eq)
    next
      case r2: (Inr v2)
      have eq: "restart_automounts self (name # names) tr =
          restart_automounts self names (tr @ [?e1, ?e2])"
        using r1 r2 by (simp add: reset_failed_eq start_unit_eq)
      from Cons.IH [of "tr @ [?e1, ?e2]"] obtain new where
        n: "snd (restart_automounts self names (tr @ [?e1, ?e2])) = (tr @ [?e1, ?e2]) @ new"
           "answered ?sd (tr @ [?e1, ?e2]) new"
           "case fst (restart_automounts self names (tr @ [?e1, ?e2])) of
              Inl e \<Rightarrow> new \<noteq> [] \<and> snd (last new) = Inl e
            | Inr u \<Rightarrow> calls new = restart_calls names \<and> no_failure new"
        by blast
      show ?thesis
        unfolding eq using n r1 r2
        by (intro exI [of _ "[?e1, ?e2] @ new"])
           (auto simp: restart_calls_def split: sum.splits)
    qed
  qed
qed

lemma answered_mem:
  "answered sd tr new \<Longrightarrow> (c, r) \<in> set new \<Longrightarrow> \<exists>h. r = sd h c"
  by (induction new arbitrary: tr) auto

lemma calls_two: "calls seg = [c1, c2] \<Longrightarrow> \<exists>r1 r2. seg = [(c1, r1), (c2, r2)]"
  by (cases seg; cases "tl seg") (auto simp: calls_def)

lemma calls_three:
  "calls seg = [c1, c2, c3] \<Longrightarrow> \<exists>r1 r2 r3. seg = [(c1, r1), (c2, r2), (c3, r3)]"
  by (cases seg; cases "tl seg"; cases "tl (tl seg)") (auto simp: calls_def)

lemma mount_segment_cases:
  assumes "mount_segment name seg"
  obtains (plain) a1 s1 v2 where
      "seg = [(GetUnitStatus (name @ ''.mount''), Inr (a1, s1)),
              (GetUnitStatus (name @ ''.automount''), Inr v2)]" "a1 \<noteq> ''failed''"
  | (reset) s1 v v2 where
      "seg = [(GetUnitStatus (name @ ''.mount''), Inr (''failed'', s1)),
              (ResetFailed (name @ ''.mount''), Inr v),
              (GetUnitStatus (name @ ''.automount''), Inr v2)]"
proof (cases "active_state_of (snd (hd seg)) = Some ''failed''")
  case True
  with assms have "calls seg = [GetUnitStatus (name @ ''.mount''), ResetFailed (name @ ''.mount''),
      GetUnitStatus (name @ ''.automount'')]" and nf: "no_failure seg"
    by (simp_all add: mount_segment_def)
  then obtain r1 r2 r3 where seg: "seg = [(GetUnitStatus (name @ ''.mount''), r1),
      (ResetFailed (name @ ''.mount''), r2), (GetUnitStatus (name @ ''.automount''), r3)]"
    using calls_three by blast
  with nf True obtain s1 v v2 where "r1 = Inr (''failed'', s1)" "r2 = Inr v" "r3 = Inr v2"
    by (cases r1; cases r2; cases r3) auto
  with seg show ?thesis using reset by simp
next
  case False
  with assms have "calls seg = [GetUnitStatus (name @ ''.mount''),
      GetUnitStatus (name @ ''.automount'')]" and nf: "no_failure seg"
    by (simp_all add: mount_segment_def)
  then obtain r1 r2 where seg: "seg = [(GetUnitStatus (name @ ''.mount''), r1),
      (GetUnitStatus (name @ ''.automount''), r2)]"
    using calls_two by blast
  with nf False obtain a1 s1 v2 where "r1 = Inr (a1, s1)" "a1 \<noteq> ''failed''" "r2 = Inr v2"
    by (cases r1; cases r2) auto
  with seg show ?thesis using plain by simp
qed

lemma segment_facts:
  assumes "mount_segment name seg"
  shows "no_failure seg"
    and "filter is_status (calls seg) =
           [GetUnitStatus (name @ ''.mount''), GetUnitStatus (name @ ''.automount'')]"
    and "filter is_stop (calls seg) = []"
    and "name \<in> set all \<Longrightarrow> list_ex (nonactive_automount all) seg = needs_restart seg"
    and "name \<in> set all \<Longrightarrow> \<not> list_ex (failed_mount all) seg \<Longrightarrow>
           calls seg = [GetUnitStatus (name @ ''.mount''), GetUnitStatus (name @ ''.automount'')]"
proof -
  have na: "name \<in> set all \<Longrightarrow> name @ ''.automount'' \<in> (\<lambda>n. n @ ''.automount'') ` set all"
    and nm: "name \<in> set all \<Longrightarrow> name @ ''.mount'' \<in> (\<lambda>n. n @ ''.mount'') ` set all"
    by blast+
  have nn: "name @ ''.mount'' \<notin> (\<lambda>n. n @ ''.automount'') ` set all"
    using mount_neq_automount by blast
  from assms show "no_failure seg" by (simp add: mount_segment_def)
  from assms show "filter is_status (calls seg) =
      [GetUnitStatus (name @ ''.mount''), GetUnitStatus (name @ ''.automount'')]"
    by (cases rule: mount_segment_cases) simp_all
  from assms show "filter is_stop (calls seg) = []"
    by (cases rule: mount_segment_cases) simp_all
  from assms show "list_ex (nonactive_automount all) seg = needs_restart seg"
    if "name \<in> set all"
    using na [OF that] nn by (cases rule: mount_segment_cases) (auto simp: needs_restart_def)
  from assms show "calls seg =
      [GetUnitStatus (name @ ''.mount''), GetUnitStatus (name @ ''.automount'')]"
    if "name \<in> set all" "\<not> list_ex (failed_mount all) seg"
    using nm [OF that(1)] that(2) by (cases rule: mount_segment_cases) auto
qed

lemma segments_facts:
  assumes "list_all2 mount_segment names segs"
  shows "no_failure (concat segs)"
    and "filter is_status (calls (concat segs)) = status_checks names"
    and "filter is_stop (calls (concat segs)) = []"
    and "set names \<subseteq> set all \<Longrightarrow>
           list_ex (nonactive_automount all) (concat segs) = (needing names segs \<noteq> [])"
    and "set names \<subseteq> set all \<Longrightarrow> \<not> list_ex (failed_mount all) (concat segs) \<Longrightarrow>
           calls (concat segs) = status_checks names"
  using assms
proof (induction names segs rule: list_all2_induct)
  case Nil
  {
    case 1 show ?case by simp
  next
    case 2 show ?case by (simp add: status_checks_def)
  next
    case 3 show ?case by simp
  next
    case 4 show ?case by simp
  next
    case 5 show ?case by (simp add: status_checks_def)
  }
next
  case (Cons name names seg segs)
  {
    case 1 show ?case using Cons.IH(1) segment_facts(1) [OF Cons.hyps(1)] by simp
  next
    case 2 show ?case
      using Cons.IH(2) segment_facts(2) [OF Cons.hyps(1)] by (simp add: status_checks_def)
  next
    case 3 show ?case using Cons.IH(3) segment_facts(3) [OF Cons.hyps(1)] by simp
  next
    case 4
    then have "name \<in> set all" "set names \<subseteq> set all" by simp_all
    then show ?case
      using Cons.IH(4) segment_facts(4) [OF Cons.hyps(1), of all] by simp
  next
    case 5
    then have "name \<in> set all" "set names \<subseteq> set all"
      "\<not> list_ex (failed_mount all) seg" "\<not> list_ex (failed_mount all) (concat segs)"
      by simp_all
    then show ?case
      using Cons.IH(5) segment_facts(5) [OF Cons.hyps(1), of all]
      by (simp add: status_checks_def)
  }
qed

lemma run_general:
  "\<exists>new. snd (restart_all_mounts self tr) = tr @ new \<and>
     answered (systemd_manager_interface self) tr new \<and>
     (case fst (restart_all_mounts self tr) of
        Inl e \<Rightarrow> new \<noteq> [] \<and> snd (last new) = Inl e
      | Inr u \<Rightarrow>
          (\<exists>segs rest. new = concat segs @ rest \<and>
             list_all2 mount_segment (list_of_mount self) segs \<and> no_failure rest \<and>
             calls rest =
               (if needing (list_of_mount self) segs = [] then []
                else target_stops @ restart_calls (needing (list_of_mount self) segs))))"
proof -
  let ?sd = "systemd_manager_interface self"
  let ?names = "list_of_mount self"
  obtain new1 where
    c: "snd (collect_automounts self ?names [] tr) = tr @ new1"
       "answered ?sd tr new1"
       "case fst (collect_automounts self ?names [] tr) of
          Inl e \<Rightarrow> new1 \<noteq> [] \<and> snd (last new1) = Inl e
        | Inr acc' \<Rightarrow>
            (\<exists>segs. new1 = concat segs \<and> list_all2 mount_segment ?names segs \<and>
                    acc' = [] @ needing ?names segs)"
    using collect_general [of self ?names "[]" tr] by blast
  show ?thesis
  proof (cases "fst (collect_automounts self ?names [] tr)")
    case (Inl e)
    with c(1) have "collect_automounts self ?names [] tr = (Inl e, tr @ new1)"
      by (simp add: prod_eq_iff)
    then have "restart_all_mounts self tr = (Inl e, tr @ new1)"
      by (simp add: restart_all_mounts_def)
    with Inl c show ?thesis by (intro exI [of _ new1]) simp
  next
    case (Inr acc')
    with c(3) obtain segs where
      segs: "new1 = concat segs" "list_all2 mount_segment ?names segs"
        "acc' = needing ?names segs"
      by auto
    have coll: "collect_automounts self ?names [] tr = (Inr acc', tr @ new1)"
      using Inr c(1) by (simp add: prod_eq_iff)
    show ?thesis
    proof (cases "acc' = []")
      case True
      then have "restart_all_mounts self tr = (Inr (), tr @ new1)"
        by (simp add: restart_all_mounts_def coll)
      with c(2) segs True show ?thesis
        by (intro exI [of _ new1]) (simp, intro exI [of _ segs] exI [of _ "[]"], simp)
    next
      case False
      let ?t1 = "''network-online.target''" and ?t2 = "''NetworkManager-wait-online.service''"
      let ?r1 = "?sd (tr @ new1) (StopUnit ?t1)"
      let ?s1 = "(StopUnit ?t1, ?r1)"
      let ?r2 = "?sd (tr @ new1 @ [?s1]) (StopUnit ?t2)"
      let ?s2 = "(StopUnit ?t2, ?r2)"
      show ?thesis
      proof (cases ?r1)
        case (Inl e)
        then have "restart_all_mounts self tr = (Inl e, tr @ new1 @ [?s1])"
          using False by (simp add: restart_all_mounts_def coll stop_unit_eq)
        with Inl c(2) show ?thesis by (intro exI [of _ "new1 @ [?s1]"]) simp
      next
        case r1: (Inr v1)
        show ?thesis
        proof (cases ?r2)
          case (Inl e)
          then have "restart_all_mounts self tr = (Inl e, tr @ new1 @ [?s1, ?s2])"
            using False r1 by (simp add: restart_all_mounts_def coll stop_unit_eq)
          with Inl c(2) show ?thesis by (intro exI [of _ "new1 @ [?s1, ?s2]"]) simp
        next
          case r2: (Inr v2)
          have eq: "restart_all_mounts self tr =
              restart_automounts self acc' (tr @ new1 @ [?s1, ?s2])"
            using False r1 r2 by (simp add: restart_all_mounts_def coll stop_unit_eq)
          obtain new2 where
            n: "snd (restart_automounts self acc' (tr @ new1 @ [?s1, ?s2])) =
                  (tr @ new1 @ [?s1, ?s2]) @ new2"
               "answered ?sd (tr @ new1 @ [?s1, ?s2]) new2"
               "case fst (restart_automounts self acc' (tr @ new1 @ [?s1, ?s2])) of
                  Inl e \<Rightarrow> new2 \<noteq> [] \<and> snd (last new2) = Inl e
                | Inr u \<Rightarrow> calls new2 = restart_calls acc' \<and> no_failure new2"
            using restart_general [of self acc' "tr @ new1 @ [?s1, ?s2]"] by blast
          show ?thesis
          proof (intro exI [of _ "new1 @ [?s1, ?s2] @ new2"] conjI)
            show "snd (restart_all_mounts self tr) = tr @ new1 @ [?s1, ?s2] @ new2"
              unfolding eq using n(1) by simp
            show "answered ?sd tr (new1 @ [?s1, ?s2] @ new2)"
              using c(2) n(2) by simp
            show "case fst (restart_all_mounts self tr) of
                Inl e \<Rightarrow> new1 @ [?s1, ?s2] @ new2 \<noteq> [] \<and>
                  snd (last (new1 @ [?s1, ?s2] @ new2)) = Inl e
              | Inr u \<Rightarrow>
                  (\<exists>segs rest. new1 @ [?s1, ?s2] @ new2 = concat segs @ rest \<and>
                     list_all2 mount_segment ?names segs \<and> no_failure rest \<and>
                     calls rest =
                       (if needing ?names segs = [] then []
                        else target_stops @ restart_calls (needing ?names segs)))"
            proof (cases "fst (restart_automounts self acc' (tr @ new1 @ [?s1, ?s2]))")
              case (Inl e)
              with n(3) show ?thesis unfolding eq by simp
            next
              case (Inr u)
              with n(3) have "calls new2 = restart_calls acc'" "no_failure new2" by simp_all
              with segs False r1 r2 have "\<exists>segs rest.
                  new1 @ [?s1, ?s2] @ new2 = concat segs @ rest \<and>
                  list_all2 mount_segment ?names segs \<and> no_failure rest \<and>
                  calls rest =
                    (if needing ?names segs = [] then []
                     else target_stops @ restart_calls (needing ?names segs))"
                by (intro exI [of _ segs] exI [of _ "[?s1, ?s2] @ new2"])
                   (simp add: target_stops_def)
              with Inr show ?thesis unfolding eq by simp
            qed
          qed
        qed
      qed
    qed
  qed
qed

text \<open>What follows for a run none of whose calls failed.\<close>

lemma run_success:
  assumes ok: "no_failure (issued tr (snd (restart_all_mounts self tr)))"
  shows "fst (restart_all_mounts self tr) = Inr () \<and>
    (\<exists>segs rest. issued tr (snd (restart_all_mounts self tr)) = concat segs @ rest \<and>
       list_all2 mount_segment (list_of_mount self) segs \<and>
       calls rest =
         (if needing (list_of_mount self) segs = [] then []
          else target_stops @ restart_calls (needing (list_of_mount self) segs)))"
proof -
  obtain new where
    n: "snd (restart_all_mounts self tr) = tr @ new"
       "case fst (restart_all_mounts self tr) of
          Inl e \<Rightarrow> new \<noteq> [] \<and> snd (last new) = Inl e
        | Inr u \<Rightarrow>
            (\<exists>segs rest. new = concat segs @ rest \<and>
               list_all2 mount_segment (list_of_mount self) segs \<and> no_failure rest \<and>
               calls rest =
                 (if needing (list_of_mount self) segs = [] then []
                  else target_stops @ restart_calls (needing (list_of_mount self) segs)))"
    using run_general [of self tr] by blast
  from ok n(1) have nf: "no_failure new" by simp
  show ?thesis
  proof (cases "fst (restart_all_mounts self tr)")
    case (Inl e)
    with n(2) nf show ?thesis using failed_last by auto
  next
    case (Inr u)
    then have r: "fst (restart_all_mounts self tr) = Inr ()" by simp
    have iss: "issued tr (snd (restart_all_mounts self tr)) = new"
      using n(1) by simp
    from Inr n(2) obtain segs rest where
      "new = concat segs @ rest" "list_all2 mount_segment (list_of_mount self) segs"
      "calls rest =
         (if needing (list_of_mount self) segs = [] then []
          else target_stops @ restart_calls (needing (list_of_mount self) segs))"
      by auto
    then have "\<exists>segs rest. new = concat segs @ rest \<and>
       list_all2 mount_segment (list_of_mount self) segs \<and>
       calls rest =
         (if needing (list_of_mount self) segs = [] then []
          else target_stops @ restart_calls (needing (list_of_mount self) segs))"
      by blast
    with r show ?thesis unfolding iss by (rule conjI)
  qed
qed

lemma run_answered:
  "answered (systemd_manager_interface self) tr (issued tr (snd (restart_all_mounts self tr)))"
  using run_general [of self tr] by auto

lemma never_fails_run:
  "never_fails (systemd_manager_interface self) \<Longrightarrow>
   no_failure (issued tr (snd (restart_all_mounts self tr)))"
  using answered_never_fails run_answered by blast

lemma restart_calls_filters:
  "filter is_stop (restart_calls names) = []"
  "filter is_status (restart_calls names) = []"
  by (induction names) (simp_all add: restart_calls_def)

lemma no_status_no_fetch:
  "filter is_status (calls xs) = [] \<Longrightarrow> \<not> list_ex (nonactive_automount all) xs"
  "filter is_status (calls xs) = [] \<Longrightarrow> \<not> list_ex (failed_mount all) xs"
proof (induction xs)
  case Nil
  { case 1 show ?case by simp next case 2 show ?case by simp }
next
  case (Cons x xs)
  obtain c r where x: "x = (c, r)" by (cases x)
  { case 1 with Cons.IH(1) x show ?case by (cases c) (auto split: if_splits)
  next
    case 2 with Cons.IH(2) x show ?case by (cases c) (auto split: if_splits) }
qed

lemma rest_facts:
  assumes "calls rest = (if acc = [] then [] else target_stops @ restart_calls acc)"
  shows "filter is_status (calls rest) = []"
    and "filter is_stop (calls rest) = (if acc = [] then [] else target_stops)"
    and "acc = [] \<Longrightarrow> rest = []"
  using assms by (auto simp: target_stops_def restart_calls_filters calls_def)

lemma assigned_reply:
  "assigned_systemd st h (GetUnitStatus u) = Inr (st u, [])"
  by (simp add: assigned_systemd_def)

lemma static_segments:
  "list_all2 mount_segment names segs \<Longrightarrow>
   answered (assigned_systemd st) tr (concat segs) \<Longrightarrow>
   calls (concat segs) = read_only_calls st names"
proof (induction names segs arbitrary: tr rule: list_all2_induct)
  case Nil
  show ?case by (simp add: read_only_calls_def)
next
  case (Cons name names seg segs)
  from Cons.prems have a1: "answered (assigned_systemd st) tr seg"
    and a2: "answered (assigned_systemd st) (tr @ seg) (concat segs)"
    by simp_all
  have "calls seg =
     (if st (name @ ''.mount'') = ''failed''
      then [GetUnitStatus (name @ ''.mount''), ResetFailed (name @ ''.mount''),
            GetUnitStatus (name @ ''.automount'')]
      else [GetUnitStatus (name @ ''.mount''), GetUnitStatus (name @ ''.automount'')])"
    using Cons.hyps(1) a1
    by (cases rule: mount_segment_cases) (auto simp: assigned_reply)
  with Cons.IH [OF a2] show ?case by (simp add: read_only_calls_def)
qed

lemma static_nonactive:
  assumes ans: "answered (assigned_systemd st) tr new"
    and st: "filter is_status (calls new) = status_checks names"
  shows "list_ex (nonactive_automount names) new =
         list_ex (\<lambda>n. st (n @ ''.automount'') \<noteq> ''active'') names"
proof
  assume "list_ex (nonactive_automount names) new"
  then obtain c r where in1: "(c, r) \<in> set new" and na: "nonactive_automount names (c, r)"
    by (auto simp: list_ex_iff)
  from na obtain n where n: "n \<in> set names" "c = GetUnitStatus (n @ ''.automount'')"
    and r: "active_state_of r \<noteq> Some ''active''"
    by (cases c) auto
  from answered_mem [OF ans in1] n(2) have "r = Inr (st (n @ ''.automount''), [])"
    by (auto simp: assigned_reply)
  with r n(1) show "list_ex (\<lambda>n. st (n @ ''.automount'') \<noteq> ''active'') names"
    by (auto simp: list_ex_iff)
next
  assume "list_ex (\<lambda>n. st (n @ ''.automount'') \<noteq> ''active'') names"
  then obtain n where n: "n \<in> set names" "st (n @ ''.automount'') \<noteq> ''active''"
    by (auto simp: list_ex_iff)
  then have "GetUnitStatus (n @ ''.automount'') \<in> set (status_checks names)"
    by (auto simp: status_checks_def)
  with st have "GetUnitStatus (n @ ''.automount'') \<in> set (calls new)"
    by (metis filter_is_subset subsetD)
  then obtain r where in1: "(GetUnitStatus (n @ ''.automount''), r) \<in> set new"
    by (auto simp: calls_def)
  from answered_mem [OF ans in1] have "r = Inr (st (n @ ''.automount''), [])"
    by (auto simp: assigned_reply)
  with n in1 show "list_ex (nonactive_automount names) new"
    by (force simp: list_ex_iff)
qed

lemma run_facts:
  assumes ok: "no_failure (issued tr (snd (restart_all_mounts self tr)))"
  shows "fst (restart_all_mounts self tr) = Inr ()"
    and "filter is_status (calls (issued tr (snd (restart_all_mounts self tr)))) =
           status_checks (list_of_mount self)"
    and "filter is_stop (calls (issued tr (snd (restart_all_mounts self tr)))) =
           (if list_ex (nonactive_automount (list_of_mount self))
                 (issued tr (snd (restart_all_mounts self tr)))
            then target_stops else [])"
    and "\<not> list_ex (nonactive_automount (list_of_mount self))
             (issued tr (snd (restart_all_mounts self tr))) \<Longrightarrow>
         \<exists>segs. issued tr (snd (restart_all_mounts self tr)) = concat segs \<and>
                list_all2 mount_segment (list_of_mount self) segs"
proof -
  let ?names = "list_of_mount self"
  let ?iss = "issued tr (snd (restart_all_mounts self tr))"
  from run_success [OF ok] obtain segs rest where
    r: "fst (restart_all_mounts self tr) = Inr ()"
    and iss: "?iss = concat segs @ rest"
    and segs: "list_all2 mount_segment ?names segs"
    and rest: "calls rest =
         (if needing ?names segs = [] then []
          else target_stops @ restart_calls (needing ?names segs))"
    by blast
  note sf = segments_facts [OF segs]
  note rf = rest_facts [OF rest]
  have ex: "list_ex (nonactive_automount ?names) ?iss = (needing ?names segs \<noteq> [])"
    unfolding iss using sf(4) [OF subset_refl] no_status_no_fetch(1) [OF rf(1)] by simp
  show "fst (restart_all_mounts self tr) = Inr ()" by (rule r)
  show "filter is_status (calls ?iss) = status_checks ?names"
    unfolding iss using sf(2) rf(1) by simp
  show "filter is_stop (calls ?iss) =
      (if list_ex (nonactive_automount ?names) ?iss then target_stops else [])"
    unfolding ex unfolding iss using sf(3) rf(2) by simp
  show "\<exists>segs. ?iss = concat segs \<and> list_all2 mount_segment ?names segs"
    if "\<not> list_ex (nonactive_automount ?names) ?iss"
  proof -
    from that ex have "needing ?names segs = []" by simp
    then have "rest = []" by (rule rf(3))
    with iss segs show ?thesis by auto
  qed
qed

subsection \<open>The two target stops\<close>

text \<open>
  Claim C8. A run of \<open>restart_all_mounts\<close> none of whose calls fails (as is every run
  against a service manager that never fails) returns normally; every reply in its
  trace is the service manager's; its status calls are the two status checks of every
  configured mount, in list order, so the automount of every configured mount is
  fetched; and its stop calls are exactly stop(network-online.target) followed by
  stop(NetworkManager-wait-online.service), once each, if the fetch of at least one
  configured automount returned an active state other than \<open>active\<close>, and none
  otherwise. In particular, for every assignment \<open>st\<close> of active states to units, the
  run stops the two targets once each if \<open>st\<close> gives some configured automount a state
  other than \<open>active\<close>, and issues no stop call otherwise.
\<close>

theorem restart_all_mounts_target_stops:
  "(never_fails (systemd_manager_interface self) \<longrightarrow>
      no_failure (issued tr (snd (restart_all_mounts self tr)))) \<and>
   (no_failure (issued tr (snd (restart_all_mounts self tr))) \<longrightarrow>
      fst (restart_all_mounts self tr) = Inr () \<and>
      answered (systemd_manager_interface self) tr (issued tr (snd (restart_all_mounts self tr))) \<and>
      filter is_status (calls (issued tr (snd (restart_all_mounts self tr)))) =
        status_checks (list_of_mount self) \<and>
      filter is_stop (calls (issued tr (snd (restart_all_mounts self tr)))) =
        (if list_ex (nonactive_automount (list_of_mount self))
              (issued tr (snd (restart_all_mounts self tr)))
         then [StopUnit ''network-online.target'',
               StopUnit ''NetworkManager-wait-online.service'']
         else [])) \<and>
   (systemd_manager_interface self = assigned_systemd st \<longrightarrow>
      fst (restart_all_mounts self tr) = Inr () \<and>
      filter is_stop (calls (issued tr (snd (restart_all_mounts self tr)))) =
        (if list_ex (\<lambda>name. st (name @ ''.automount'') \<noteq> ''active'') (list_of_mount self)
         then [StopUnit ''network-online.target'',
               StopUnit ''NetworkManager-wait-online.service'']
         else []))"
proof (intro conjI impI)
  let ?iss = "issued tr (snd (restart_all_mounts self tr))"
  show "no_failure ?iss" if "never_fails (systemd_manager_interface self)"
    using that by (rule never_fails_run)
  {
    assume ok: "no_failure ?iss"
    note rf = run_facts [OF ok]
    show "fst (restart_all_mounts self tr) = Inr ()" by (rule rf(1))
    show "answered (systemd_manager_interface self) tr ?iss" by (rule run_answered)
    show "filter is_status (calls ?iss) = status_checks (list_of_mount self)" by (rule rf(2))
    show "filter is_stop (calls ?iss) =
        (if list_ex (nonactive_automount (list_of_mount self)) ?iss
         then [StopUnit ''network-online.target'',
               StopUnit ''NetworkManager-wait-online.service'']
         else [])"
      using rf(3) by (simp add: target_stops_def)
  }
  {
    assume sd: "systemd_manager_interface self = assigned_systemd st"
    then have "never_fails (systemd_manager_interface self)" by simp
    then have ok: "no_failure ?iss" by (rule never_fails_run)
    note rf = run_facts [OF ok]
    have ans: "answered (assigned_systemd st) tr ?iss"
      using run_answered [of self tr] sd by simp
    show "fst (restart_all_mounts self tr) = Inr ()" by (rule rf(1))
    show "filter is_stop (calls ?iss) =
        (if list_ex (\<lambda>name. st (name @ ''.automount'') \<noteq> ''active'') (list_of_mount self)
         then [StopUnit ''network-online.target'',
               StopUnit ''NetworkManager-wait-online.service'']
         else [])"
      using rf(3) static_nonactive [OF ans rf(2)] by (simp add: target_stops_def)
  }
qed

theorem restart_all_mounts_target_stops_witness:
  "systemd_manager_interface two_all_inactive = assigned_systemd (\<lambda>u. ''inactive'') \<and>
   never_fails (systemd_manager_interface two_all_inactive) \<and>
   no_failure (issued [] (snd (restart_all_mounts two_all_inactive []))) \<and>
   list_ex (nonactive_automount (list_of_mount two_all_inactive))
     (issued [] (snd (restart_all_mounts two_all_inactive []))) \<and>
   calls (snd (restart_all_mounts two_all_inactive [])) =
     [GetUnitStatus ''a.mount'', GetUnitStatus ''a.automount'',
      GetUnitStatus ''b.mount'', GetUnitStatus ''b.automount'',
      StopUnit ''network-online.target'', StopUnit ''NetworkManager-wait-online.service'',
      ResetFailed ''a.automount'', StartUnit ''a.automount'',
      ResetFailed ''b.automount'', StartUnit ''b.automount''] \<and>
   filter is_stop (calls (issued [] (snd (restart_all_mounts two_all_inactive [])))) =
     [StopUnit ''network-online.target'', StopUnit ''NetworkManager-wait-online.service'']"
proof -
  have sd: "systemd_manager_interface two_all_inactive = assigned_systemd (\<lambda>u. ''inactive'')"
    by (simp add: two_all_inactive_def)
  have nf: "never_fails (systemd_manager_interface two_all_inactive)"
    by (simp add: two_all_inactive_def)
  have run: "calls (snd (restart_all_mounts two_all_inactive [])) =
     [GetUnitStatus ''a.mount'', GetUnitStatus ''a.automount'',
      GetUnitStatus ''b.mount'', GetUnitStatus ''b.automount'',
      StopUnit ''network-online.target'', StopUnit ''NetworkManager-wait-online.service'',
      ResetFailed ''a.automount'', StartUnit ''a.automount'',
      ResetFailed ''b.automount'', StartUnit ''b.automount'']"
    by (simp add: two_all_inactive_def restart_all_mounts_def get_unit_status_def
        reset_failed_def stop_unit_def start_unit_def remote_def assigned_systemd_def)
  note t = restart_all_mounts_target_stops
    [where self = two_all_inactive and tr = "[]" and st = "\<lambda>u. ''inactive''"]
  from t nf have ok: "no_failure (issued [] (snd (restart_all_mounts two_all_inactive [])))"
    by blast
  have ex: "list_ex (nonactive_automount (list_of_mount two_all_inactive))
     (issued [] (snd (restart_all_mounts two_all_inactive [])))"
    by (simp add: issued_def two_all_inactive_def restart_all_mounts_def get_unit_status_def
        reset_failed_def stop_unit_def start_unit_def remote_def assigned_systemd_def)
  from t ok ex have "filter is_stop (calls (issued [] (snd (restart_all_mounts two_all_inactive [])))) =
     [StopUnit ''network-online.target'', StopUnit ''NetworkManager-wait-online.service'']"
    by simp
  with sd nf ok ex run show ?thesis by simp
qed

subsection \<open>Every automount already active\<close>

text \<open>
  Claim C4, as the code has it. Take a run of \<open>restart_all_mounts\<close>, from any trace,
  none of whose calls fails and in which no fetch of a configured automount returns a
  state other than \<open>active\<close>. It returns normally, every reply in its trace is the
  service manager's, and its trace is one segment per configured mount, in list
  order: the status check of the mount, the reset\_failed of that mount exactly when
  that check returned \<open>failed\<close>, and the status check of the automount. So it issues
  the two status checks per mount, no stop, no start and no reset\_failed of an
  automount, and when no mount was fetched as failed it issues the status checks and
  nothing else. In particular, under an assignment \<open>st\<close> of active states that gives
  every configured automount \<open>active\<close>, the calls are those of \<open>read_only_calls\<close>.
\<close>

theorem restart_all_mounts_all_active:
  "(never_fails (systemd_manager_interface self) \<longrightarrow>
      no_failure (issued tr (snd (restart_all_mounts self tr)))) \<and>
   (no_failure (issued tr (snd (restart_all_mounts self tr))) \<and>
    \<not> list_ex (nonactive_automount (list_of_mount self))
        (issued tr (snd (restart_all_mounts self tr))) \<longrightarrow>
      fst (restart_all_mounts self tr) = Inr () \<and>
      answered (systemd_manager_interface self) tr (issued tr (snd (restart_all_mounts self tr))) \<and>
      (\<exists>segs. issued tr (snd (restart_all_mounts self tr)) = concat segs \<and>
              list_all2 mount_segment (list_of_mount self) segs) \<and>
      filter is_status (calls (issued tr (snd (restart_all_mounts self tr)))) =
        status_checks (list_of_mount self) \<and>
      (\<not> list_ex (failed_mount (list_of_mount self))
            (issued tr (snd (restart_all_mounts self tr))) \<longrightarrow>
         calls (issued tr (snd (restart_all_mounts self tr))) =
           status_checks (list_of_mount self))) \<and>
   (systemd_manager_interface self = assigned_systemd st \<and>
    \<not> list_ex (\<lambda>name. st (name @ ''.automount'') \<noteq> ''active'') (list_of_mount self) \<longrightarrow>
      fst (restart_all_mounts self tr) = Inr () \<and>
      calls (issued tr (snd (restart_all_mounts self tr))) =
        read_only_calls st (list_of_mount self))"
proof (intro conjI impI)
  let ?iss = "issued tr (snd (restart_all_mounts self tr))"
  let ?names = "list_of_mount self"
  show "no_failure ?iss" if "never_fails (systemd_manager_interface self)"
    using that by (rule never_fails_run)
  {
    assume h: "no_failure ?iss \<and> \<not> list_ex (nonactive_automount ?names) ?iss"
    then have ok: "no_failure ?iss" and act: "\<not> list_ex (nonactive_automount ?names) ?iss"
      by simp_all
    note rf = run_facts [OF ok]
    from rf(4) [OF act] obtain segs where
      segs: "?iss = concat segs" "list_all2 mount_segment ?names segs" by blast
    show "fst (restart_all_mounts self tr) = Inr ()" by (rule rf(1))
    show "answered (systemd_manager_interface self) tr ?iss" by (rule run_answered)
    show "\<exists>segs. ?iss = concat segs \<and> list_all2 mount_segment ?names segs"
      using segs by blast
    show "filter is_status (calls ?iss) = status_checks ?names" by (rule rf(2))
    show "calls ?iss = status_checks ?names" if "\<not> list_ex (failed_mount ?names) ?iss"
      using that segments_facts(5) [OF segs(2) subset_refl] unfolding segs(1) by simp
  }
  {
    assume h: "systemd_manager_interface self = assigned_systemd st \<and>
      \<not> list_ex (\<lambda>name. st (name @ ''.automount'') \<noteq> ''active'') ?names"
    then have sd: "systemd_manager_interface self = assigned_systemd st"
      and act: "\<not> list_ex (\<lambda>name. st (name @ ''.automount'') \<noteq> ''active'') ?names"
      by simp_all
    from sd have "never_fails (systemd_manager_interface self)" by simp
    then have ok: "no_failure ?iss" by (rule never_fails_run)
    note rf = run_facts [OF ok]
    have ans: "answered (assigned_systemd st) tr ?iss"
      using run_answered [of self tr] sd by simp
    from act static_nonactive [OF ans rf(2)]
    have "\<not> list_ex (nonactive_automount ?names) ?iss" by simp
    from rf(4) [OF this] obtain segs where
      segs: "?iss = concat segs" "list_all2 mount_segment ?names segs" by blast
    show "fst (restart_all_mounts self tr) = Inr ()" by (rule rf(1))
    show "calls ?iss = read_only_calls st ?names"
      using static_segments [OF segs(2)] ans unfolding segs(1) by simp
  }
qed

lemma after_first_run_eq:
  "after_first_run =
     [(GetUnitStatus ''a.mount'', Inr (''inactive'', [])),
      (GetUnitStatus ''a.automount'', Inr (''inactive'', [])),
      (StopUnit ''network-online.target'', Inr ([], [])),
      (StopUnit ''NetworkManager-wait-online.service'', Inr ([], [])),
      (ResetFailed ''a.automount'', Inr ([], [])),
      (StartUnit ''a.automount'', Inr ([], []))]"
  by (simp add: after_first_run_def one_live_def restart_all_mounts_def get_unit_status_def
      reset_failed_def stop_unit_def start_unit_def remote_def live_systemd_def calls_def)

lemma second_run_eq:
  "snd (restart_all_mounts one_live after_first_run) =
     after_first_run @
     [(GetUnitStatus ''a.mount'', Inr (''inactive'', [])),
      (GetUnitStatus ''a.automount'', Inr (''active'', []))]"
  unfolding after_first_run_eq
  by (simp add: one_live_def restart_all_mounts_def get_unit_status_def
      reset_failed_def stop_unit_def start_unit_def remote_def live_systemd_def calls_def)

theorem restart_all_mounts_all_active_witness:
  "no_failure (issued after_first_run (snd (restart_all_mounts one_live after_first_run))) \<and>
   \<not> list_ex (nonactive_automount (list_of_mount one_live))
       (issued after_first_run (snd (restart_all_mounts one_live after_first_run))) \<and>
   StartUnit ''a.automount'' \<in> set (calls after_first_run) \<and>
   fst (restart_all_mounts one_live after_first_run) = Inr () \<and>
   calls (issued after_first_run (snd (restart_all_mounts one_live after_first_run))) =
     [GetUnitStatus ''a.mount'', GetUnitStatus ''a.automount'']"
proof -
  have iss: "issued after_first_run (snd (restart_all_mounts one_live after_first_run)) =
     [(GetUnitStatus ''a.mount'', Inr (''inactive'', [])),
      (GetUnitStatus ''a.automount'', Inr (''active'', []))]"
    by (simp add: second_run_eq)
  have ok: "no_failure (issued after_first_run (snd (restart_all_mounts one_live after_first_run)))"
    by (simp add: iss)
  have act: "\<not> list_ex (nonactive_automount (list_of_mount one_live))
       (issued after_first_run (snd (restart_all_mounts one_live after_first_run)))"
    unfolding iss by (simp add: one_live_def)
  have st: "StartUnit ''a.automount'' \<in> set (calls after_first_run)"
    by (simp add: after_first_run_eq)
  from restart_all_mounts_all_active [where self = one_live and tr = after_first_run] ok act
  have "fst (restart_all_mounts one_live after_first_run) = Inr ()" by blast
  with ok act st show ?thesis by (simp add: iss)
qed

text \<open>
  Claim C4 as stated fails: with \<open>data.automount\<close> active and \<open>data.mount\<close> failed,
  \<open>restart_all_mounts\<close> issues the mutating call reset\_failed(data.mount) between the
  two status checks.
\<close>

theorem restart_all_mounts_resets_failed_mount_counterexample:
  "snd (restart_all_mounts data_failed_active []) =
     [(GetUnitStatus ''data.mount'', Inr (''failed'', [])),
      (ResetFailed ''data.mount'', Inr ([], [])),
      (GetUnitStatus ''data.automount'', Inr (''active'', []))]"
  by (simp add: data_failed_active_def restart_all_mounts_def get_unit_status_def
      reset_failed_def remote_def assigned_systemd_def)

section \<open>Properties of dbus\_monitoring.py\<close>

lemma events_since_self [simp]: "events_since wd wd = []"
  by (simp add: events_since_def)

lemma events_since_app [simp]: "events_since (evs, w) (evs @ new, w') = new"
  by (simp add: events_since_def)

lemma count_event_simps [simp]:
  "count_event e [] = 0"
  "count_event e (x # xs) = (if x = e then 1 else 0) + count_event e xs"
  "count_event e (xs @ ys) = count_event e xs + count_event e ys"
  by (simp_all add: count_event_def)

lemma global_step:
  "global_state_changed state self (evs, w) = (r, self', wd') \<Longrightarrow>
   (case NetworkManagerState_of state of
      Inl e \<Rightarrow> r = Inl e \<and> self' = self \<and> wd' = (evs, w)
    | Inr ns \<Rightarrow>
        self' = self\<lparr>current_global_state := Some (global_online ns)\<rparr> \<and>
        (if current_global_state self \<noteq> Some False \<and> \<not> global_online ns
         then wd' = (evs @ [Awaited Stop_handler], snd (stop_handler self w)) \<and>
              r = fst (stop_handler self w)
         else wd' = (evs, w) \<and> r = Inr ()))"
  by (cases "current_global_state self")
     (auto simp: global_state_changed_def global_online_def await_handler_def Let_def
           split: sum.splits prod.splits if_splits)


lemma deliver_global_events:
  "\<exists>new w'. snd (deliver_global states self (evs, w)) = (evs @ new, w') \<and>
     count_event (Awaited Stop_handler) new =
       falls (current_global_state self \<noteq> Some False) (derived_global states) \<and>
     set new \<subseteq> {Awaited Stop_handler}"
proof (induction states arbitrary: self evs w)
  case Nil
  show ?case by simp
next
  case (Cons state states)
  obtain r self' wd' where g: "global_state_changed state self (evs, w) = (r, self', wd')"
    by (metis prod_cases3)
  note st = global_step [OF g]
  show ?case
  proof (cases "NetworkManagerState_of state")
    case (Inl e)
    with st have "self' = self" "wd' = (evs, w)" by simp_all
    with Cons.IH [of self evs w] g Inl show ?thesis by simp
  next
    case (Inr ns)
    with st have s': "self' = self\<lparr>current_global_state := Some (global_online ns)\<rparr>"
      by simp
    show ?thesis
    proof (cases "current_global_state self \<noteq> Some False \<and> \<not> global_online ns")
      case True
      with st Inr have wd': "wd' = (evs @ [Awaited Stop_handler], snd (stop_handler self w))"
        by simp
      from Cons.IH [of self' "evs @ [Awaited Stop_handler]" "snd (stop_handler self w)"]
      obtain new w' where
        n: "snd (deliver_global states self' (evs @ [Awaited Stop_handler], snd (stop_handler self w)))
              = ((evs @ [Awaited Stop_handler]) @ new, w')"
           "count_event (Awaited Stop_handler) new =
              falls (current_global_state self' \<noteq> Some False) (derived_global states)"
           "set new \<subseteq> {Awaited Stop_handler}"
        by blast
      show ?thesis
        using g wd' n True Inr s'
        by (intro exI [of _ "Awaited Stop_handler # new"] exI [of _ w']) simp
    next
      case False
      with st Inr have wd': "wd' = (evs, w)" by simp
      from Cons.IH [of self' evs w]
      obtain new w' where
        n: "snd (deliver_global states self' (evs, w)) = (evs @ new, w')"
           "count_event (Awaited Stop_handler) new =
              falls (current_global_state self' \<noteq> Some False) (derived_global states)"
           "set new \<subseteq> {Awaited Stop_handler}"
        by blast
      show ?thesis
        using g wd' n False Inr s'
        by (intro exI [of _ new] exI [of _ w']) auto
    qed
  qed
qed

subsection \<open>One stop per fall of the global state\<close>

text \<open>
  Claim C5. For every sequence of global-state signals, whatever the stop handler does,
  the number of times the stop handler is awaited is the number of online-to-offline
  steps in the sequence of derived online values, read from the recorded state on
  (a state not yet recorded counts as not offline, so the first offline observation
  fires once). Signals with an unknown value are not observations. And a signal whose
  derived value equals the recorded one changes nothing and awaits nothing.
\<close>

theorem global_stop_once_per_fall:
  "count_event (Awaited Stop_handler) (events_since wd (snd (deliver_global states self wd))) =
     falls (current_global_state self \<noteq> Some False) (derived_global states) \<and>
   (NetworkManagerState_of state = Inr ns \<and> current_global_state self = Some (global_online ns)
      \<longrightarrow> global_state_changed state self wd = (Inr (), self, wd))"
proof
  obtain evs w where wd: "wd = (evs, w)" by (cases wd)
  from deliver_global_events [of states self evs w] obtain new w' where
    "snd (deliver_global states self (evs, w)) = (evs @ new, w')"
    "count_event (Awaited Stop_handler) new =
       falls (current_global_state self \<noteq> Some False) (derived_global states)"
    by blast
  then show "count_event (Awaited Stop_handler)
      (events_since wd (snd (deliver_global states self wd))) =
     falls (current_global_state self \<noteq> Some False) (derived_global states)"
    by (simp add: wd)
  show "NetworkManagerState_of state = Inr ns \<and>
      current_global_state self = Some (global_online ns)
      \<longrightarrow> global_state_changed state self wd = (Inr (), self, wd)"
    by (simp add: global_state_changed_def global_online_def)
qed

theorem global_stop_once_per_fall_witness:
  "NetworkManagerState_of 20 = Inr DISCONNECTED \<and>
   current_global_state offline_monitor = Some (global_online DISCONNECTED) \<and>
   global_state_changed 20 offline_monitor ([], []) = (Inr (), offline_monitor, ([], [])) \<and>
   count_event (Awaited Stop_handler)
     (events_since ([], []) (snd (deliver_global [60, 40, 40, 20] fresh_monitor ([], [])))) = 1"
proof -
  have s: "NetworkManagerState_of 20 = Inr DISCONNECTED"
    by (simp add: NetworkManagerState_of_def)
  have c: "current_global_state offline_monitor = Some (global_online DISCONNECTED)"
    by (simp add: offline_monitor_def global_online_def GLOBAL_ONLINE_STATE_def)
  have d: "derived_global [60, 40, 40, 20] = [True, False, False, False]"
    by (simp add: NetworkManagerState_of_def global_online_def GLOBAL_ONLINE_STATE_def)
  have f: "current_global_state fresh_monitor = None"
    by (simp add: fresh_monitor_def main_dbus_monitoring_def DbusMonitoring_init_def)
  from global_stop_once_per_fall
    [where wd = "([], [])" and states = "[60, 40, 40, 20]" and self = fresh_monitor]
  have "count_event (Awaited Stop_handler)
     (events_since ([], []) (snd (deliver_global [60, 40, 40, 20] fresh_monitor ([], [])))) =
     falls (current_global_state fresh_monitor \<noteq> Some False) (derived_global [60, 40, 40, 20])"
    by (rule conjunct1)
  also have "\<dots> = 1"
    unfolding d f by simp
  finally have "count_event (Awaited Stop_handler)
     (events_since ([], []) (snd (deliver_global [60, 40, 40, 20] fresh_monitor ([], [])))) = 1" .
  moreover from global_stop_once_per_fall
    [where self = offline_monitor and state = 20 and ns = DISCONNECTED and wd = "([], [])"] s c
  have "global_state_changed 20 offline_monitor ([], []) = (Inr (), offline_monitor, ([], []))"
    by blast
  ultimately show ?thesis using s c by simp
qed

subsection \<open>A signal with an unknown state value\<close>

text \<open>
  Claim C7, as the code has it. On a signal whose integer is no value of
  \<open>NetworkManagerState\<close>, \<open>global_state_changed\<close> raises ValueError to its caller; the
  recorded global state, the device map and the world are as before, and no handler
  was awaited or scheduled.
\<close>

theorem global_state_changed_unknown_value:
  "state \<notin> {0, 10, 20, 30, 40, 50, 60, 70} \<Longrightarrow>
   global_state_changed state self wd = (Inl ValueError, self, wd)"
  by (simp add: global_state_changed_def NetworkManagerState_of_def)

theorem global_state_changed_unknown_value_witness:
  "(5 :: int) \<notin> {0, 10, 20, 30, 40, 50, 60, 70} \<and>
   global_state_changed 5 offline_monitor ([], []) = (Inl ValueError, offline_monitor, ([], []))"
proof -
  have h: "(5 :: int) \<notin> {0, 10, 20, 30, 40, 50, 60, 70}" by simp
  from global_state_changed_unknown_value [OF h, of offline_monitor "([], [])"] h
  show ?thesis by simp
qed

text \<open>
  Claim C7 as stated fails: the error is not caught in the handler. On the value 45
  the result of \<open>global_state_changed\<close> is the exception.
\<close>

theorem global_state_changed_raises_counterexample:
  "fst (global_state_changed 45 fresh_monitor ([], [])) = Inl ValueError"
  by (simp add: global_state_changed_def NetworkManagerState_of_def)

subsection \<open>Device messages\<close>

lemma py_split_nonempty: "py_split sep s \<noteq> []"
  by (induction s) (auto split: list.splits)

lemma device_signal_id:
  "get_device_id (device_signal ''2'' s) = ''2''"
  "get_device_id (device_signal ''3'' s) = ''3''"
  by (simp_all add: get_device_id_def device_signal_def)

lemma device_step:
  "device_state_changed m self (evs, w) =
     (if readable m then
        (Inr False,
         self\<lparr>device_list := (device_list self)(get_device_id m \<mapsto> device_online m)\<rparr>,
         (evs @ (if device_list self (get_device_id m) \<noteq> Some True \<and> device_online m
                 then [Task_created Restart_handler] else []), w))
      else (if is_device_signal m then Inl IndexError else Inr False, self, (evs, w)))"
proof (cases "readable m")
  case False
  then show ?thesis
    by (auto simp: device_state_changed_def readable_def is_device_signal_def Let_def
        split: list.splits)
next
  case True
  then obtain b0 bs where b: "body m = b0 # bs"
    by (cases "body m") (auto simp: readable_def)
  show ?thesis
  proof (cases "device_list self (get_device_id m) = Some (device_online m)")
    case same: True
    then have "self\<lparr>device_list := (device_list self)(get_device_id m \<mapsto> device_online m)\<rparr> = self"
      by (simp add: map_upd_triv)
    with True b same show ?thesis
      by (auto simp: device_state_changed_def readable_def is_device_signal_def Let_def
          device_online_def)
  next
    case diff: False
    with True b show ?thesis
      by (cases "device_list self (get_device_id m)")
         (auto simp: device_state_changed_def readable_def is_device_signal_def Let_def
          device_online_def create_task_def)
  qed
qed

text \<open>
  Claim C9, as the code has it. A message that is not a signal on the device interface
  is answered with \<open>False\<close>, and the fields and the world are as before (nothing is
  scheduled). And every message with a non-empty body is answered with \<open>False\<close>,
  device-state signals included.
\<close>

theorem device_state_changed_not_consumed:
  "(\<not> is_device_signal m \<longrightarrow> device_state_changed m self wd = (Inr False, self, wd)) \<and>
   (body m \<noteq> [] \<longrightarrow> fst (device_state_changed m self wd) = Inr False)"
  by (cases wd) (simp add: device_step readable_def)

theorem device_state_changed_not_consumed_witness:
  "\<not> is_device_signal method_return \<and>
   device_state_changed method_return fresh_monitor ([], []) =
     (Inr False, fresh_monitor, ([], [])) \<and>
   body (device_signal ''2'' 100) \<noteq> [] \<and>
   fst (device_state_changed (device_signal ''2'' 100) fresh_monitor ([], [])) = Inr False"
proof -
  have a: "\<not> is_device_signal method_return"
    by (simp add: is_device_signal_def method_return_def)
  have b: "body (device_signal ''2'' 100) \<noteq> []"
    by (simp add: device_signal_def)
  from device_state_changed_not_consumed
    [where m = method_return and self = fresh_monitor and wd = "([], [])"] a
  have "device_state_changed method_return fresh_monitor ([], []) =
     (Inr False, fresh_monitor, ([], []))"
    by blast
  moreover
  from device_state_changed_not_consumed
    [where m = "device_signal ''2'' 100" and self = fresh_monitor and wd = "([], [])"] b
  have "fst (device_state_changed (device_signal ''2'' 100) fresh_monitor ([], [])) = Inr False"
    by blast
  ultimately show ?thesis using a b by simp
qed

text \<open>
  Claim C9 as stated fails: a signal on the device interface with an empty body is
  not answered with \<open>False\<close>; reading \<open>message.body[0]\<close> raises IndexError.
\<close>

theorem device_state_changed_empty_body_counterexample:
  "fst (device_state_changed empty_device_signal fresh_monitor ([], [])) = Inl IndexError"
  by (simp add: device_state_changed_def empty_device_signal_def)

lemma restarts_for_simps [simp]:
  "restarts_for d [] = 0"
  "restarts_for d ((m, evs) # log) =
     (if get_device_id m = d then count_event (Task_created Restart_handler) evs else 0) +
     restarts_for d log"
  by (simp_all add: restarts_for_def)

lemma deliver_device_Cons_fst:
  "fst (deliver_device (m # ms) self wd) =
     (m, events_since wd (snd (snd (device_state_changed m self wd)))) #
     fst (deliver_device ms (fst (snd (device_state_changed m self wd)))
            (snd (snd (device_state_changed m self wd))))"
  by (simp split: prod.splits)

lemma deliver_device_restarts:
  "restarts_for d (fst (deliver_device ms self (evs, w))) =
     rises (device_list self d = Some True)
       (map device_online (filter (\<lambda>m. readable m \<and> get_device_id m = d) ms))"
proof (induction ms arbitrary: self evs w)
  case Nil
  show ?case by simp
next
  case (Cons m ms)
  show ?case
  proof (cases "readable m")
    case False
    then show ?thesis
      using Cons.IH [of self evs w] by (simp add: deliver_device_Cons_fst device_step del: deliver_device.simps)
  next
    case True
    let ?self' = "self\<lparr>device_list := (device_list self)(get_device_id m \<mapsto> device_online m)\<rparr>"
    let ?evs' = "evs @ (if device_list self (get_device_id m) \<noteq> Some True \<and> device_online m
                 then [Task_created Restart_handler] else [])"
    from True show ?thesis
      using Cons.IH [of ?self' ?evs' w]
      by (auto simp: deliver_device_Cons_fst device_step simp del: deliver_device.simps)
  qed
qed

text \<open>
  Claim C6. For every sequence of messages and every device \<open>d\<close>, the number of
  restart tasks created while handling the messages of \<open>d\<close> is the number of
  offline-to-online steps in the sequence of online values derived from the
  device-state signals of \<open>d\<close>, read from the recorded value on (a device not yet
  recorded counts as offline, so a device first seen online gives one task). And a
  signal that finds its device recorded online and derives online again changes
  nothing and creates no task.
\<close>

theorem device_restart_once_per_rise:
  "restarts_for d (fst (deliver_device ms self wd)) =
     rises (device_list self d = Some True)
       (map device_online (filter (\<lambda>m. readable m \<and> get_device_id m = d) ms)) \<and>
   (readable m \<and> device_online m \<and> device_list self (get_device_id m) = Some True \<longrightarrow>
      device_state_changed m self wd = (Inr False, self, wd))"
proof
  show "restarts_for d (fst (deliver_device ms self wd)) =
     rises (device_list self d = Some True)
       (map device_online (filter (\<lambda>m. readable m \<and> get_device_id m = d) ms))"
    by (cases wd) (simp add: deliver_device_restarts)
  show "readable m \<and> device_online m \<and> device_list self (get_device_id m) = Some True \<longrightarrow>
      device_state_changed m self wd = (Inr False, self, wd)"
    by (cases wd) (auto simp: device_step map_upd_triv)
qed

theorem device_restart_once_per_rise_witness:
  "readable (device_signal ''2'' 100) \<and> device_online (device_signal ''2'' 100) \<and>
   device_list device2_online_monitor (get_device_id (device_signal ''2'' 100)) = Some True \<and>
   device_state_changed (device_signal ''2'' 100) device2_online_monitor ([], []) =
     (Inr False, device2_online_monitor, ([], [])) \<and>
   restarts_for ''2''
     (fst (deliver_device
        [device_signal ''2'' 100, device_signal ''2'' 100, device_signal ''3'' 100,
         device_signal ''2'' 30, device_signal ''2'' 80]
        fresh_monitor ([], []))) = 2"
proof -
  note id = device_signal_id
  have r: "readable (device_signal n s)" for n s
    by (simp add: readable_def is_device_signal_def device_signal_def)
  have on: "device_online (device_signal n 100)" "device_online (device_signal n 80)"
    "\<not> device_online (device_signal n 30)" for n
    by (simp_all add: device_online_def device_signal_def DEVICE_ONLINE_STATE_def)
  have l: "device_list device2_online_monitor (get_device_id (device_signal ''2'' 100)) = Some True"
    by (simp add: id device2_online_monitor_def)
  have f: "device_list fresh_monitor ''2'' = None"
    by (simp add: fresh_monitor_def main_dbus_monitoring_def DbusMonitoring_init_def)
  from device_restart_once_per_rise [where d = "''2''" and ms =
      "[device_signal ''2'' 100, device_signal ''2'' 100, device_signal ''3'' 100,
        device_signal ''2'' 30, device_signal ''2'' 80]" and self = fresh_monitor
      and wd = "([], [])"]
  have "restarts_for ''2''
     (fst (deliver_device
        [device_signal ''2'' 100, device_signal ''2'' 100, device_signal ''3'' 100,
         device_signal ''2'' 30, device_signal ''2'' 80]
        fresh_monitor ([], []))) = 2"
    by (simp add: id r on f)
  moreover
  from device_restart_once_per_rise [where self = device2_online_monitor
      and m = "device_signal ''2'' 100" and wd = "([], [])"] r on(1) l
  have "device_state_changed (device_signal ''2'' 100) device2_online_monitor ([], []) =
     (Inr False, device2_online_monitor, ([], []))"
    by blast
  ultimately show ?thesis using r on(1) l by simp
qed

lemma stop_mounts_calls:
  "\<exists>new. snd (stop_mounts mc tr) = tr @ new \<and>
     (\<forall>c \<in> set (calls new). \<exists>n \<in> set (list_of_mount mc). c = StopUnit (n @ ''.mount''))"
proof -
  obtain k new where
    *: "snd (stop_loop mc (list_of_mount mc) tr) = tr @ new"
       "calls new = map (\<lambda>name. StopUnit (name @ ''.mount'')) (take k (list_of_mount mc))"
    using stop_loop_general [of mc "list_of_mount mc" tr] by blast
  have "\<exists>n \<in> set (list_of_mount mc). c = StopUnit (n @ ''.mount'')" if "c \<in> set (calls new)" for c
    using that *(2) by (auto dest: in_set_takeD)
  with *(1) show ?thesis by (auto simp: stop_mounts_def)
qed

lemma deliver_global_main:
  assumes h: "stop_handler self = stop_mounts mc"
  shows "\<exists>new. snd (snd (deliver_global states self (evs, tr))) = tr @ new \<and>
     (\<forall>c \<in> set (calls new). \<exists>n \<in> set (list_of_mount mc). c = StopUnit (n @ ''.mount''))"
  using h
proof (induction states arbitrary: self evs tr)
  case Nil
  show ?case by simp
next
  case (Cons state states)
  obtain r self' wd' where g: "global_state_changed state self (evs, tr) = (r, self', wd')"
    by (metis prod_cases3)
  note st = global_step [OF g]
  obtain evs' tr' where wd': "wd' = (evs', tr')" by (cases wd')
  have h': "stop_handler self' = stop_mounts mc"
    using st Cons.prems by (auto split: sum.splits)
  obtain step where step: "tr' = tr @ step"
    "\<forall>c \<in> set (calls step). \<exists>n \<in> set (list_of_mount mc). c = StopUnit (n @ ''.mount'')"
  proof (cases "tr' = tr")
    case True
    then show ?thesis using that [of "[]"] by simp
  next
    case False
    with st wd' have "tr' = snd (stop_handler self tr)"
      by (auto split: sum.splits if_splits)
    with Cons.prems stop_mounts_calls [of mc tr] that show ?thesis by auto
  qed
  from Cons.IH [OF h', of evs' tr'] obtain new where
    n: "snd (snd (deliver_global states self' (evs', tr'))) = tr' @ new"
       "\<forall>c \<in> set (calls new). \<exists>n \<in> set (list_of_mount mc). c = StopUnit (n @ ''.mount'')"
    by blast
  show ?case
    using g wd' step n by (intro exI [of _ "step @ new"]) auto
qed

subsection \<open>The global handler never restarts\<close>

text \<open>
  Claim C10. Delivering any sequence of global-state signals neither schedules nor
  awaits the restart handler. A signal that derives online while the recorded state
  is not online records online and does nothing else: the world is as before. In the
  system as \<open>main\<close> wires it, the unit calls made while global signals are delivered are
  stops of \<open>.mount\<close> units of configured mounts only. The handling of a message by
  \<open>device_state_changed\<close> creates one restart task exactly when the message is a
  device-state signal that derives online for a device not recorded online, and none
  otherwise.
\<close>

theorem global_never_restarts:
  "Task_created Restart_handler \<notin> set (events_since wd (snd (deliver_global states self wd))) \<and>
   Awaited Restart_handler \<notin> set (events_since wd (snd (deliver_global states self wd))) \<and>
   (NetworkManagerState_of state = Inr ns \<and> global_online ns \<and>
    current_global_state self \<noteq> Some True \<longrightarrow>
      global_state_changed state self wd =
        (Inr (), self\<lparr>current_global_state := Some True\<rparr>, wd)) \<and>
   (\<forall>c \<in> set (calls (issued tr
        (snd (snd (deliver_global states (main_dbus_monitoring mc) (evs, tr)))))).
      \<exists>n \<in> set (list_of_mount mc). c = StopUnit (n @ ''.mount'')) \<and>
   count_event (Task_created Restart_handler)
       (events_since wd (snd (snd (device_state_changed m self wd)))) =
     (if readable m \<and> device_online m \<and> device_list self (get_device_id m) \<noteq> Some True
      then 1 else 0)"
proof -
  obtain evs0 w where wd: "wd = (evs0, w)" by (cases wd)
  from deliver_global_events [of states self evs0 w] obtain new w' where
    n: "snd (deliver_global states self (evs0, w)) = (evs0 @ new, w')"
       "set new \<subseteq> {Awaited Stop_handler}"
    by blast
  have a: "Task_created Restart_handler \<notin> set new" "Awaited Restart_handler \<notin> set new"
    using n(2) by auto
  have b: "global_state_changed state self wd =
        (Inr (), self\<lparr>current_global_state := Some True\<rparr>, wd)"
    if "NetworkManagerState_of state = Inr ns" "global_online ns"
       "current_global_state self \<noteq> Some True"
    using that by (simp add: global_state_changed_def global_online_def)
  have c: "count_event (Task_created Restart_handler)
       (events_since wd (snd (snd (device_state_changed m self wd)))) =
     (if readable m \<and> device_online m \<and> device_list self (get_device_id m) \<noteq> Some True
      then 1 else 0)"
    by (simp add: wd device_step)
  have h: "stop_handler (main_dbus_monitoring mc) = stop_mounts mc"
    by (simp add: main_dbus_monitoring_def DbusMonitoring_init_def)
  from deliver_global_main [OF h, of states evs tr] obtain issued_calls where
    i: "snd (snd (deliver_global states (main_dbus_monitoring mc) (evs, tr))) = tr @ issued_calls"
       "\<forall>c \<in> set (calls issued_calls). \<exists>n \<in> set (list_of_mount mc). c = StopUnit (n @ ''.mount'')"
    by blast
  show ?thesis
    using a b c i by (simp add: wd n(1))
qed

theorem global_never_restarts_witness:
  "NetworkManagerState_of 70 = Inr GLOBAL \<and> global_online GLOBAL \<and>
   current_global_state offline_monitor \<noteq> Some True \<and>
   global_state_changed 70 offline_monitor ([], []) =
     (Inr (), offline_monitor\<lparr>current_global_state := Some True\<rparr>, ([], [])) \<and>
   calls (snd (snd (deliver_global [70, 20, 70] fresh_monitor ([], [])))) =
     [StopUnit ''a.mount'', StopUnit ''b.mount'']"
proof -
  have s: "NetworkManagerState_of 70 = Inr GLOBAL"
    by (simp add: NetworkManagerState_of_def)
  have g: "global_online GLOBAL"
    by (simp add: global_online_def GLOBAL_ONLINE_STATE_def)
  have c: "current_global_state offline_monitor \<noteq> Some True"
    by (simp add: offline_monitor_def)
  from global_never_restarts
    [where self = offline_monitor and state = 70 and ns = GLOBAL and wd = "([], [])"] s g c
  have "global_state_changed 70 offline_monitor ([], []) =
     (Inr (), offline_monitor\<lparr>current_global_state := Some True\<rparr>, ([], []))"
    by blast
  moreover have "calls (snd (snd (deliver_global [70, 20, 70] fresh_monitor ([], [])))) =
     [StopUnit ''a.mount'', StopUnit ''b.mount'']"
    by (simp add: fresh_monitor_def main_dbus_monitoring_def DbusMonitoring_init_def
        global_state_changed_def NetworkManagerState_of_def GLOBAL_ONLINE_STATE_def
        await_handler_def two_all_active_def stop_mounts_def stop_unit_def remote_def
        assigned_systemd_def)
  ultimately show ?thesis using s g c by simp
qed

section \<open>Properties of journal\_monitoring.py\<close>

lemma await_handler_eq:
  "await_handler n h (evs, w) = (fst (h w), (evs @ [Awaited n], snd (h w)))"
  by (simp add: await_handler_def split: prod.splits)

lemma process_entries_skip:
  "\<not> matching entry \<Longrightarrow>
   process_entries stop (entry # entries) wd =
     (if entry ''MESSAGE'' = None then (Inl KeyError, wd)
      else process_entries stop entries wd)"
  by (auto simp: matching_def split: option.splits)

lemma process_entries_events:
  "\<exists>new w'. snd (process_entries stop batch (evs, w)) = (evs @ new, w') \<and>
     set new \<subseteq> {Awaited Stop_handler} \<and>
     length new \<le> length (filter matching batch) \<and>
     ((\<forall>entry \<in> set batch. well_formed entry) \<and> (\<forall>w. fst (stop w) = Inr ()) \<longrightarrow>
        fst (process_entries stop batch (evs, w)) = Inr () \<and>
        length new = length (filter matching batch))"
proof (induction batch arbitrary: evs w)
  case Nil
  show ?case by simp
next
  case (Cons entry entries)
  show ?case
  proof (cases "entry ''MESSAGE''")
    case None
    then show ?thesis by (simp add: well_formed_def)
  next
    case (Some msg)
    show ?thesis
    proof (cases "stall_signature msg")
      case False
      with Some have nm: "\<not> matching entry" by (simp add: matching_def)
      with Some False Cons.IH [of evs w] show ?thesis by simp blast
    next
      case True
      with Some have m: "matching entry" by (simp add: matching_def)
      show ?thesis
      proof (cases "entry ''__REALTIME_TIMESTAMP''")
        case None
        with Some True show ?thesis by (simp add: well_formed_def)
      next
        case ts: (Some t)
        show ?thesis
        proof (cases "fst (stop w)")
          case (Inl e)
          with Some True ts m show ?thesis
            by (intro exI [of _ "[Awaited Stop_handler]"] exI [of _ "snd (stop w)"])
               (auto simp: await_handler_eq)
        next
          case (Inr u)
          from Cons.IH [of "evs @ [Awaited Stop_handler]" "snd (stop w)"]
          obtain new w' where
            n: "snd (process_entries stop entries (evs @ [Awaited Stop_handler], snd (stop w))) =
                  ((evs @ [Awaited Stop_handler]) @ new, w')"
               "set new \<subseteq> {Awaited Stop_handler}"
               "length new \<le> length (filter matching entries)"
               "(\<forall>entry \<in> set entries. well_formed entry) \<and> (\<forall>w. fst (stop w) = Inr ()) \<longrightarrow>
                  fst (process_entries stop entries (evs @ [Awaited Stop_handler], snd (stop w)))
                    = Inr () \<and>
                  length new = length (filter matching entries)"
            by blast
          show ?thesis
            using Some True ts m Inr n
            by (intro exI [of _ "Awaited Stop_handler # new"] exI [of _ w'])
               (auto simp: await_handler_eq)
        qed
      qed
    qed
  qed
qed

lemma count_event_all: "set new \<subseteq> {e} \<Longrightarrow> count_event e new = length new"
  by (induction new) auto

lemma stall_message_matches: "stall_signature stall_message"
  by (simp add: stall_signature_def stall_message_def sublist_code)

lemma kernel_entry_lookup:
  "kernel_entry msg ''MESSAGE'' = Some msg"
  "kernel_entry msg ''__REALTIME_TIMESTAMP'' = Some ''0''"
  by (simp_all add: kernel_entry_def)

subsection \<open>One stop per matching entry\<close>

text \<open>
  Claim C3, as the code has it. Handling a batch of entries only ever awaits the stop
  handler, and at most once per entry whose message starts with \<open>CIFS: VFS:\<close> and
  contains \<open>has not responded\<close>; an entry with a message that fails either test is
  passed over without any effect. When every entry of the batch has the fields the
  loop reads and the stop handler never raises, the batch is handled to its end and
  the stop handler is awaited once for every matching entry of the batch.
\<close>

theorem process_entries_one_stop_per_match:
  "set (events_since wd (snd (process_entries stop batch wd))) \<subseteq> {Awaited Stop_handler} \<and>
   count_event (Awaited Stop_handler) (events_since wd (snd (process_entries stop batch wd)))
     \<le> length (filter matching batch) \<and>
   (\<not> matching entry \<and> entry ''MESSAGE'' \<noteq> None \<longrightarrow>
      process_entries stop (entry # batch) wd = process_entries stop batch wd) \<and>
   ((\<forall>entry \<in> set batch. well_formed entry) \<and> (\<forall>w. fst (stop w) = Inr ()) \<longrightarrow>
      fst (process_entries stop batch wd) = Inr () \<and>
      count_event (Awaited Stop_handler) (events_since wd (snd (process_entries stop batch wd)))
        = length (filter matching batch))"
proof -
  obtain evs w where wd: "wd = (evs, w)" by (cases wd)
  from process_entries_events [of stop batch evs w] obtain new w' where
    n: "snd (process_entries stop batch (evs, w)) = (evs @ new, w')"
       "set new \<subseteq> {Awaited Stop_handler}"
       "length new \<le> length (filter matching batch)"
       "(\<forall>entry \<in> set batch. well_formed entry) \<and> (\<forall>w. fst (stop w) = Inr ()) \<longrightarrow>
          fst (process_entries stop batch (evs, w)) = Inr () \<and>
          length new = length (filter matching batch)"
    by blast
  have c: "count_event (Awaited Stop_handler) new = length new"
    using n(2) by (rule count_event_all)
  have skip: "process_entries stop (entry # batch) wd = process_entries stop batch wd"
    if "\<not> matching entry" "entry ''MESSAGE'' \<noteq> None"
    using that by (auto simp: process_entries_skip simp del: process_entries.simps)
  show ?thesis
    using n c skip by (simp add: wd)
qed

theorem process_entries_one_stop_per_match_witness:
  "well_formed (kernel_entry stall_message) \<and> well_formed (kernel_entry ''usb 1-1: reset'') \<and>
   fst (stop_mounts two_all_active []) = Inr () \<and>
   \<not> matching (kernel_entry ''usb 1-1: reset'') \<and>
   count_event (Awaited Stop_handler)
     (events_since ([], [])
        (snd (process_entries (stop_mounts two_all_active)
           [kernel_entry stall_message, kernel_entry ''usb 1-1: reset'',
            kernel_entry stall_message] ([], [])))) = 2"
proof -
  have wf: "well_formed (kernel_entry msg)" for msg
    by (simp add: well_formed_def kernel_entry_lookup)
  have nf: "never_fails (systemd_manager_interface two_all_active)"
    by (simp add: two_all_active_def)
  have ok: "fst (stop_mounts two_all_active w) = Inr ()" for w
    using stop_loop_ok [OF nf] by (simp add: stop_mounts_def)
  have m: "matching (kernel_entry stall_message)"
    by (simp add: matching_def kernel_entry_lookup stall_message_matches)
  have nm: "\<not> matching (kernel_entry ''usb 1-1: reset'')"
    by (simp add: matching_def kernel_entry_lookup stall_signature_def)
  from process_entries_one_stop_per_match [where wd = "([], [])"
      and stop = "stop_mounts two_all_active" and batch =
      "[kernel_entry stall_message, kernel_entry ''usb 1-1: reset'', kernel_entry stall_message]"]
    wf ok
  have "count_event (Awaited Stop_handler)
     (events_since ([], [])
        (snd (process_entries (stop_mounts two_all_active)
           [kernel_entry stall_message, kernel_entry ''usb 1-1: reset'',
            kernel_entry stall_message] ([], [])))) =
     length (filter matching
           [kernel_entry stall_message, kernel_entry ''usb 1-1: reset'',
            kernel_entry stall_message])"
    by simp
  then show ?thesis using wf ok m nm by simp
qed

text \<open>
  Claim C3 as stated fails: a batch of two matching entries awaits the stop handler
  twice.
\<close>

theorem process_entries_two_stops_counterexample:
  "fst (snd (process_entries (main_journal_stop_handler two_all_active)
        [kernel_entry stall_message, kernel_entry stall_message] ([], []))) =
     [Awaited Stop_handler, Awaited Stop_handler]"
  by (simp add: kernel_entry_lookup stall_message_matches await_handler_def
      main_journal_stop_handler_def two_all_active_def stop_mounts_def stop_unit_def
      remote_def assigned_systemd_def)

end
